theory Spec2Isabelle
  imports Complex_Main "HOL-Library.Multiset" "HOL-Library.Product_Lexorder" "HOL-Library.Log_Nat"
begin

section \<open>Data model\<close>

text \<open>
  The document is a tree of JSON objects. A key that a node may lack is an \<open>option\<close>
  (\<open>None\<close>: the key is absent); \<open>children\<close> absent reads as the empty list, as
  \<^verbatim>\<open>node.get("children", [])\<close> does. A number of a bounding box is given by its
  value, a rational: the value of a Python \<^verbatim>\<open>int\<close> or of a finite \<^verbatim>\<open>float\<close> (a double).
  The arithmetic on these numbers is that of Python: see the section on floating point.
  Strings are lists of 8-bit characters.
\<close>

record box =
  box_x :: rat
  box_y :: rat
  box_width :: rat
  box_height :: rat

record interaction =
  itype :: "string option"
  target :: "string option"

datatype node = Node
  (n_id: "string option")
  (n_name: "string option")
  (n_type: "string option")
  (absoluteBoundingBox: "box option")
  (children: "node list")
  (prototypeInteractions: "interaction list option")
  (transitionNodeID: "string option")

text \<open>
  The value stored under the key \<^verbatim>\<open>"screenshot"\<close> of a clickable dict: the key may be
  missing, or hold Python's \<^verbatim>\<open>None\<close>, or hold a path.
\<close>

datatype shot = Key_Missing | Py_None | Py_Str string

record tap =
  pos_x :: int
  pos_y :: int

record clickable =
  name :: string
  from_screen :: string
  tap_position :: tap
  navigates_to :: string
  interaction_type :: string
  node_id :: "string option"
  element_y :: rat
  screenshot :: shot

type_synonym name_map = "string \<rightharpoonup> string"
type_synonym parent_map = "string \<rightharpoonup> string option"
type_synonym node_lookup = "string \<rightharpoonup> node"

section \<open>Python primitives\<close>

text \<open>Truthiness of an optional string: \<^verbatim>\<open>None\<close> and \<^verbatim>\<open>""\<close> are falsy.\<close>

definition truthy :: "string option \<Rightarrow> bool" where
  "truthy v = (case v of None \<Rightarrow> False | Some s \<Rightarrow> s \<noteq> [])"

text \<open>\<^verbatim>\<open>str.isspace\<close> on code points below 256.\<close>

definition is_space :: "char \<Rightarrow> bool" where
  "is_space c = (let k = of_char c :: nat in
     (9 \<le> k \<and> k \<le> 13) \<or> (28 \<le> k \<and> k \<le> 32) \<or> k = 133 \<or> k = 160)"

definition strip :: "string \<Rightarrow> string" where
  "strip s = rev (dropWhile is_space (rev (dropWhile is_space s)))"

text \<open>\<^verbatim>\<open>s.replace(" ", "_")\<close>\<close>

definition replace_space :: "string \<Rightarrow> string" where
  "replace_space s = map (\<lambda>c. if c = CHR '' '' then CHR ''_'' else c) s"

text \<open>\<^verbatim>\<open>d.get(k, default)\<close> on a dict of strings.\<close>

definition get_default :: "name_map \<Rightarrow> string \<Rightarrow> string \<Rightarrow> string" where
  "get_default m k d = (case m k of None \<Rightarrow> d | Some v \<Rightarrow> v)"

text \<open>
  \<^verbatim>\<open>round(x)\<close> on a float, as CPython computes it: C's \<open>round\<close> (halfway cases away
  from zero), then a correction of the halfway case to the even neighbour.
\<close>

definition c_round :: "rat \<Rightarrow> int" where
  "c_round q = (if 0 \<le> q then \<lfloor>q + 1 / 2\<rfloor> else \<lceil>q - 1 / 2\<rceil>)"

definition py_round :: "rat \<Rightarrow> int" where
  "py_round q =
     (let rounded = c_round q
      in if \<bar>q - of_int rounded\<bar> = 1 / 2 then 2 * c_round (q / 2) else rounded)"

text \<open>\<^verbatim>\<open>str(n)\<close> for an integer, in decimal.\<close>

fun str_nat :: "nat \<Rightarrow> string" where
  "str_nat n =
     (if n < 10 then [char_of (48 + n)]
      else str_nat (n div 10) @ [char_of (48 + n mod 10)])"

declare str_nat.simps [simp del]

definition str_int :: "int \<Rightarrow> string" where
  "str_int i = (if i < 0 then CHR ''-'' # str_nat (nat (- i)) else str_nat (nat i))"

text \<open>
  Exceptions are values. \<open>TypeError\<close> is what \<^verbatim>\<open>os.path.basename(None)\<close> raises,
  \<open>OverflowError\<close> what the conversion of a too large \<^verbatim>\<open>int\<close> to \<^verbatim>\<open>float\<close> and
  \<^verbatim>\<open>round\<close> of an infinite float raise; the other two stand for any failure of a
  network request or of writing a file.
\<close>

datatype py_exception = TypeError | RequestException | OSError | OverflowError

text \<open>\<^verbatim>\<open>os.path.basename\<close> (POSIX): the text after the last slash; \<^verbatim>\<open>None\<close> is refused.\<close>

definition basename :: "string option \<Rightarrow> py_exception + string" where
  "basename p =
     (case p of
        None \<Rightarrow> Inl TypeError
      | Some s \<Rightarrow> Inr (rev (takeWhile (\<lambda>c. c \<noteq> CHR ''/'') (rev s))))"

section \<open>Floating point\<close>

text \<open>
  Python's \<^verbatim>\<open>float\<close> is the IEEE 754 double: 53 significant bits, exponents from
  \<open>-1022\<close> to \<open>1023\<close>, subnormal numbers below, every operation rounded to the nearest
  double with ties to the even significand. \<open>fl q\<close> is that rounding of the exact value
  \<open>q\<close>, with no upper limit on the exponent; a result of magnitude \<open>2 ^ 1024\<close> or more is
  the overflow.
\<close>

definition pow2 :: "int \<Rightarrow> rat" where
  "pow2 k = (if 0 \<le> k then 2 ^ nat k else 1 / 2 ^ nat (- k))"

text \<open>
  The exponent \<open>e\<close> with \<open>2 ^ e \<le> q < 2 ^ (e + 1)\<close>, for \<open>q > 0\<close>, from the bit lengths of
  numerator and denominator.
\<close>

definition floor_log2 :: "rat \<Rightarrow> int" where
  "floor_log2 q =
     (case quotient_of q of
        (a, b) \<Rightarrow> (let d = bitlen a - bitlen b in if pow2 d \<le> q then d else d - 1))"

definition round_half_even :: "rat \<Rightarrow> int" where
  "round_half_even q =
     (let f = \<lfloor>q\<rfloor>; r = q - of_int f
      in if r < 1 / 2 then f else if 1 / 2 < r then f + 1 else if even f then f else f + 1)"

definition fl :: "rat \<Rightarrow> rat" where
  "fl q =
     (if q = 0 then 0
      else (let e = max (floor_log2 \<bar>q\<bar>) (- 1022); ulp = pow2 (e - 52)
            in of_int (round_half_even (q / ulp)) * ulp))"

definition overflows :: "rat \<Rightarrow> bool" where
  "overflows q = (2 ^ 1024 \<le> \<bar>fl q\<bar>)"

text \<open>
  A float during the computation: a finite double, or an infinity (of either sign: the
  sign makes no difference to what follows). No operand here is infinite on both sides,
  so no NaN arises.
\<close>

datatype pyfloat = Fin rat | Inf

text \<open>
  The conversion of a number to \<^verbatim>\<open>float\<close> before an operation with a float. A double
  is its own conversion; an \<^verbatim>\<open>int\<close> is rounded, and raises when it is too large.
\<close>

definition to_float :: "rat \<Rightarrow> py_exception + rat" where
  "to_float v = (if overflows v then Inl OverflowError else Inr (fl v))"

text \<open>
  \<^verbatim>\<open>v / 2\<close>: the correctly rounded quotient, for an \<^verbatim>\<open>int\<close> as for a float; only an
  \<^verbatim>\<open>int\<close> can be so large that it raises.
\<close>

definition true_div2 :: "rat \<Rightarrow> py_exception + rat" where
  "true_div2 v = to_float (v / 2)"

text \<open>Sum and difference of floats: an overflow gives an infinity and raises nothing.\<close>

definition float_add :: "rat \<Rightarrow> rat \<Rightarrow> pyfloat" where
  "float_add a b = (if overflows (a + b) then Inf else Fin (fl (a + b)))"

definition float_sub :: "pyfloat \<Rightarrow> rat \<Rightarrow> pyfloat" where
  "float_sub m b =
     (case m of
        Inf \<Rightarrow> Inf
      | Fin a \<Rightarrow> if overflows (a - b) then Inf else Fin (fl (a - b)))"

text \<open>\<^verbatim>\<open>round(x)\<close> of a float: an infinity raises.\<close>

definition round_float :: "pyfloat \<Rightarrow> py_exception + int" where
  "round_float x = (case x of Fin q \<Rightarrow> Inr (py_round q) | Inf \<Rightarrow> Inl OverflowError)"

section \<open>Tree Indexer\<close>

text \<open>
  \<^verbatim>\<open>build_node_maps\<close> mutates three dicts; the model passes them as a triple and
  returns the updated triple. The loop over the children is \<open>build_children\<close>. A node is
  indexed when its id is truthy.
\<close>

fun build_node_maps ::
    "node \<Rightarrow> name_map \<times> parent_map \<times> node_lookup \<Rightarrow> node option
      \<Rightarrow> name_map \<times> parent_map \<times> node_lookup"
  and build_children ::
    "node list \<Rightarrow> name_map \<times> parent_map \<times> node_lookup \<Rightarrow> node
      \<Rightarrow> name_map \<times> parent_map \<times> node_lookup"
where
  "build_node_maps (Node i nm ty bb cs pis tr) (name_map, parent_map, node_lookup) parent =
     (let node = Node i nm ty bb cs pis tr;
          maps = (case i of
                    None \<Rightarrow> (name_map, parent_map, node_lookup)
                  | Some nid \<Rightarrow>
                      if nid \<noteq> []
                      then (name_map(nid \<mapsto> (case nm of None \<Rightarrow> ''Unnamed'' | Some s \<Rightarrow> s)),
                            parent_map(nid \<mapsto> (case parent of None \<Rightarrow> None | Some p \<Rightarrow> n_id p)),
                            node_lookup(nid \<mapsto> node))
                      else (name_map, parent_map, node_lookup))
      in build_children cs maps node)"
| "build_children [] maps node = maps"
| "build_children (child # rest) maps node =
     build_children rest (build_node_maps child maps (Some node)) node"

section \<open>Ancestor Resolver\<close>

definition is_frame :: "node \<Rightarrow> bool" where
  "is_frame current = (n_type current = Some ''FRAME'' \<and> absoluteBoundingBox current \<noteq> None)"

text \<open>
  The last two lines of the loop body: the next value of \<^verbatim>\<open>current\<close>. A node without an
  id finds no parent id; a parent id that is \<^verbatim>\<open>None\<close> or empty ends the walk.
\<close>

definition next_current :: "node \<Rightarrow> parent_map \<Rightarrow> node_lookup \<Rightarrow> node option" where
  "next_current current parent_map node_lookup =
     (let current_id = n_id current;
          parent_id = (case current_id of
                         None \<Rightarrow> None
                       | Some i \<Rightarrow> (case parent_map i of None \<Rightarrow> None | Some p \<Rightarrow> p))
      in (case parent_id of
            None \<Rightarrow> None
          | Some p \<Rightarrow> if p \<noteq> [] then node_lookup p else None))"

text \<open>
  The \<^verbatim>\<open>while current:\<close> loop, on its loop variable. The loop has no bound and no
  visited set, so it is a partial function: the outer \<open>None\<close> is a walk that never
  returns, \<open>Some None\<close> is the Python result \<^verbatim>\<open>None\<close>.
\<close>

partial_function (option) frame_walk ::
    "node option \<Rightarrow> parent_map \<Rightarrow> node_lookup \<Rightarrow> node option option" where
  "frame_walk current parent_map node_lookup =
     (case current of
        None \<Rightarrow> Some None
      | Some cur \<Rightarrow>
          if is_frame cur then Some (Some cur)
          else frame_walk (next_current cur parent_map node_lookup) parent_map node_lookup)"

definition find_frame_ancestor ::
    "node \<Rightarrow> parent_map \<Rightarrow> node_lookup \<Rightarrow> node option option" where
  "find_frame_ancestor node parent_map node_lookup = frame_walk (Some node) parent_map node_lookup"

text \<open>One step of the walk, as a relation (next node, current node).\<close>

definition parent_step :: "parent_map \<Rightarrow> node_lookup \<Rightarrow> (node \<times> node) set" where
  "parent_step parent_map node_lookup =
     {(n', n). \<not> is_frame n \<and> next_current n parent_map node_lookup = Some n'}"

text \<open>
  The parent links between ids: \<open>(j, i)\<close> when the walk goes from a node with id \<open>i\<close> to
  a node with id \<open>j\<close>.
\<close>

definition parent_links :: "parent_map \<Rightarrow> node_lookup \<Rightarrow> (string \<times> string) set" where
  "parent_links parent_map node_lookup =
     {(j, i). \<exists>p n'. parent_map i = Some (Some p) \<and> p \<noteq> [] \<and> node_lookup p = Some n'
                \<and> n_id n' = Some j}"

section \<open>Clickable Extractor\<close>

definition has_link :: "node \<Rightarrow> bool" where
  "has_link node = (prototypeInteractions node \<noteq> None \<or> transitionNodeID node \<noteq> None)"

text \<open>
  \<^verbatim>\<open>v + s / 2\<close> (lines 43 and 44): the division, then the conversion of \<open>v\<close>, then the
  sum of two floats.
\<close>

definition plus_half :: "rat \<Rightarrow> rat \<Rightarrow> py_exception + pyfloat" where
  "plus_half v s =
     (case true_div2 s of
        Inl e \<Rightarrow> Inl e
      | Inr h \<Rightarrow> (case to_float v of Inl e \<Rightarrow> Inl e | Inr x \<Rightarrow> Inr (float_add x h)))"

definition midpoint :: "box \<Rightarrow> py_exception + pyfloat \<times> pyfloat" where
  "midpoint b =
     (case plus_half (box_x b) (box_width b) of
        Inl e \<Rightarrow> Inl e
      | Inr mid_x \<Rightarrow>
          (case plus_half (box_y b) (box_height b) of
             Inl e \<Rightarrow> Inl e
           | Inr mid_y \<Rightarrow> Inr (mid_x, mid_y)))"

text \<open>\<^verbatim>\<open>mid - origin\<close> (lines 51 and 52): the conversion of the origin, then the difference.\<close>

definition minus_origin :: "pyfloat \<Rightarrow> rat \<Rightarrow> py_exception + pyfloat" where
  "minus_origin m v = (case to_float v of Inl e \<Rightarrow> Inl e | Inr f \<Rightarrow> Inr (float_sub m f))"

text \<open>The tap point before rounding (lines 49 to 54), from the midpoint and the frame.\<close>

definition tap_point ::
    "pyfloat \<times> pyfloat \<Rightarrow> node option \<Rightarrow> py_exception + pyfloat \<times> pyfloat" where
  "tap_point mid frame =
     (case frame of
        None \<Rightarrow> Inr mid
      | Some f \<Rightarrow>
          (case absoluteBoundingBox f of
             None \<Rightarrow> Inr mid
           | Some frame_box \<Rightarrow>
               (case minus_origin (fst mid) (box_x frame_box) of
                  Inl e \<Rightarrow> Inl e
                | Inr tap_x \<Rightarrow>
                    (case minus_origin (snd mid) (box_y frame_box) of
                       Inl e \<Rightarrow> Inl e
                     | Inr tap_y \<Rightarrow> Inr (tap_x, tap_y)))))"

text \<open>The dict of one record; the two calls of \<^verbatim>\<open>round\<close> may raise.\<close>

definition new_clickable ::
    "node \<Rightarrow> box \<Rightarrow> node option \<Rightarrow> pyfloat \<times> pyfloat \<Rightarrow> string \<Rightarrow> string
      \<Rightarrow> py_exception + clickable" where
  "new_clickable node b frame tp target_id kind =
     (case round_float (fst tp) of
        Inl e \<Rightarrow> Inl e
      | Inr rx \<Rightarrow>
          (case round_float (snd tp) of
             Inl e \<Rightarrow> Inl e
           | Inr ry \<Rightarrow>
               Inr \<lparr> name = (case n_name node of None \<Rightarrow> ''Unnamed'' | Some s \<Rightarrow> s),
                     from_screen =
                       (case frame of
                          None \<Rightarrow> ''Unknown''
                        | Some f \<Rightarrow> (case n_name f of None \<Rightarrow> ''Unknown'' | Some s \<Rightarrow> s)),
                     tap_position = \<lparr> pos_x = rx, pos_y = ry \<rparr>,
                     navigates_to = target_id,
                     interaction_type = kind,
                     node_id = n_id node,
                     element_y = box_y b,
                     screenshot = Py_None \<rparr>))"

text \<open>The loop over the interaction descriptors (lines 57 to 69).\<close>

fun interaction_records ::
    "node \<Rightarrow> box \<Rightarrow> node option \<Rightarrow> pyfloat \<times> pyfloat \<Rightarrow> interaction list
      \<Rightarrow> py_exception + clickable list" where
  "interaction_records node b frame tp [] = Inr []"
| "interaction_records node b frame tp (interaction # rest) =
     (case target interaction of
        None \<Rightarrow> interaction_records node b frame tp rest
      | Some target_id \<Rightarrow>
          if target_id \<noteq> []
          then (case new_clickable node b frame tp target_id
                       (case itype interaction of None \<Rightarrow> ''ON_CLICK'' | Some t \<Rightarrow> t) of
                  Inl e \<Rightarrow> Inl e
                | Inr c \<Rightarrow>
                    (case interaction_records node b frame tp rest of
                       Inl e \<Rightarrow> Inl e
                     | Inr cs \<Rightarrow> Inr (c # cs)))
          else interaction_records node b frame tp rest)"

text \<open>
  The records one qualifying node appends (lines 56 to 80), given its box, the frame the
  resolver returned and the tap point.
\<close>

definition node_clickables ::
    "node \<Rightarrow> box \<Rightarrow> node option \<Rightarrow> pyfloat \<times> pyfloat \<Rightarrow> py_exception + clickable list" where
  "node_clickables node b frame tp =
     (case prototypeInteractions node of
        Some interactions \<Rightarrow> interaction_records node b frame tp interactions
      | None \<Rightarrow>
          (case transitionNodeID node of
             Some t \<Rightarrow>
               (case new_clickable node b frame tp t ''ON_CLICK'' of
                  Inl e \<Rightarrow> Inl e
                | Inr c \<Rightarrow> Inr [c])
           | None \<Rightarrow> Inr []))"

text \<open>
  What \<^verbatim>\<open>extract_clickables\<close> does at one node after its children (lines 38 to 80):
  \<open>None\<close> when the ancestor walk does not return, an exception of the arithmetic, or
  the records to append. The midpoint is computed before the resolver is called, and the
  resolver only for a node that passed the qualification test.
\<close>

definition node_part ::
    "parent_map \<Rightarrow> node_lookup \<Rightarrow> node \<Rightarrow> (py_exception + clickable list) option" where
  "node_part parent_map node_lookup node =
     (case absoluteBoundingBox node of
        None \<Rightarrow> Some (Inr [])
      | Some b \<Rightarrow>
          if \<not> has_link node then Some (Inr [])
          else (case midpoint b of
                  Inl e \<Rightarrow> Some (Inl e)
                | Inr mid \<Rightarrow>
                    (case find_frame_ancestor node parent_map node_lookup of
                       None \<Rightarrow> None
                     | Some frame \<Rightarrow>
                         (case tap_point mid frame of
                            Inl e \<Rightarrow> Some (Inl e)
                          | Inr tp \<Rightarrow> Some (node_clickables node b frame tp)))))"

text \<open>
  \<^verbatim>\<open>extract_clickables\<close> appends to the list it is given; the model returns the
  extended list, or the exception raised, or \<open>None\<close> when an ancestor walk does not
  return.
\<close>

fun extract_clickables ::
    "node \<Rightarrow> parent_map \<Rightarrow> node_lookup \<Rightarrow> clickable list
      \<Rightarrow> (py_exception + clickable list) option"
  and extract_children ::
    "node list \<Rightarrow> parent_map \<Rightarrow> node_lookup \<Rightarrow> clickable list
      \<Rightarrow> (py_exception + clickable list) option"
where
  "extract_clickables (Node i nm ty bb cs pis tr) parent_map node_lookup clickables =
     (case extract_children cs parent_map node_lookup clickables of
        None \<Rightarrow> None
      | Some (Inl e) \<Rightarrow> Some (Inl e)
      | Some (Inr clickables') \<Rightarrow>
          (case node_part parent_map node_lookup (Node i nm ty bb cs pis tr) of
             None \<Rightarrow> None
           | Some (Inl e) \<Rightarrow> Some (Inl e)
           | Some (Inr new) \<Rightarrow> Some (Inr (clickables' @ new))))"
| "extract_children [] parent_map node_lookup clickables = Some (Inr clickables)"
| "extract_children (child # rest) parent_map node_lookup clickables =
     (case extract_clickables child parent_map node_lookup clickables of
        None \<Rightarrow> None
      | Some (Inl e) \<Rightarrow> Some (Inl e)
      | Some (Inr clickables') \<Rightarrow> extract_children rest parent_map node_lookup clickables')"

text \<open>The nodes of a tree in the order the extractor examines them (post-order).\<close>

fun nodes_of :: "node \<Rightarrow> node list" where
  "nodes_of (Node i nm ty bb cs pis tr) =
     concat (map nodes_of cs) @ [Node i nm ty bb cs pis tr]"

text \<open>
  The count the specification gives: over the qualifying nodes, the descriptors with a
  present (truthy) target for a descriptor-bearing node, and one for a node that carries
  only the legacy field.
\<close>

definition qualifying :: "node \<Rightarrow> bool" where
  "qualifying node = (absoluteBoundingBox node \<noteq> None \<and> has_link node)"

definition spec_contribution :: "node \<Rightarrow> nat" where
  "spec_contribution node =
     (case prototypeInteractions node of
        Some interactions \<Rightarrow> length (filter (\<lambda>i. truthy (target i)) interactions)
      | None \<Rightarrow> 1)"

definition spec_count :: "node \<Rightarrow> nat" where
  "spec_count tree = sum_list (map spec_contribution (filter qualifying (nodes_of tree)))"

text \<open>
  The node parts of a list of nodes run one after the other, as the extractor runs them
  over the nodes of a tree.
\<close>

fun run_nodes ::
    "(node \<Rightarrow> (py_exception + clickable list) option) \<Rightarrow> node list \<Rightarrow> clickable list
      \<Rightarrow> (py_exception + clickable list) option" where
  "run_nodes f [] acc = Some (Inr acc)"
| "run_nodes f (n # ns) acc =
     (case f n of
        None \<Rightarrow> None
      | Some (Inl e) \<Rightarrow> Some (Inl e)
      | Some (Inr new) \<Rightarrow> run_nodes f ns (acc @ new))"

text \<open>Boxes whose numbers are far from the overflow of the arithmetic.\<close>

definition bounded_box :: "box \<Rightarrow> bool" where
  "bounded_box b =
     (\<bar>box_x b\<bar> \<le> 2 ^ 1000 \<and> \<bar>box_y b\<bar> \<le> 2 ^ 1000
      \<and> \<bar>box_width b\<bar> \<le> 2 ^ 1000 \<and> \<bar>box_height b\<bar> \<le> 2 ^ 1000)"

definition bounded_node :: "node \<Rightarrow> bool" where
  "bounded_node n = (case absoluteBoundingBox n of None \<Rightarrow> True | Some b \<Rightarrow> bounded_box b)"

text \<open>
  The indexing and the extraction as \<^verbatim>\<open>main\<close> runs them on a document (lines 135 to
  139): the maps are built from empty ones, and the extractor appends to the empty list.
\<close>

definition extract_document :: "node \<Rightarrow> (py_exception + clickable list) option" where
  "extract_document document =
     (let (name_map, parent_map, node_lookup) =
            build_node_maps document (Map.empty, Map.empty, Map.empty) None
      in extract_clickables document parent_map node_lookup [])"

text \<open>
  The id under which the indexer files a node (none when the id is absent or empty), and
  the ids filed for a tree.
\<close>

definition indexed_id :: "node \<Rightarrow> string option" where
  "indexed_id n = (case n_id n of None \<Rightarrow> None | Some i \<Rightarrow> if i \<noteq> [] then Some i else None)"

definition ids_of :: "node \<Rightarrow> string list" where
  "ids_of tree =
     concat (map (\<lambda>n. case indexed_id n of None \<Rightarrow> [] | Some i \<Rightarrow> [i]) (nodes_of tree))"

text \<open>The key sets of the three maps, and the same set of keys added to each.\<close>

definition keys3 ::
    "name_map \<times> parent_map \<times> node_lookup \<Rightarrow> string set \<times> string set \<times> string set" where
  "keys3 maps = (dom (fst maps), dom (fst (snd maps)), dom (snd (snd maps)))"

definition add3 ::
    "string set \<Rightarrow> string set \<times> string set \<times> string set
      \<Rightarrow> string set \<times> string set \<times> string set" where
  "add3 S k = (fst k \<union> S, fst (snd k) \<union> S, snd (snd k) \<union> S)"

text \<open>
  Auxiliary notions for the proofs about the index maps: what a lookup in the node map
  and in the parent map can find, and a rank that decreases along the ancestor walk.
\<close>

definition lookup_from :: "node list \<Rightarrow> string \<Rightarrow> node \<Rightarrow> bool" where
  "lookup_from cs p n = (\<exists>c\<in>set cs. n \<in> set (nodes_of c) \<and> indexed_id n = Some p)"

definition edge_from :: "node list \<Rightarrow> string \<Rightarrow> string option \<Rightarrow> bool" where
  "edge_from cs i po =
     (\<exists>c\<in>set cs. \<exists>q\<in>set (nodes_of c). \<exists>m\<in>set (children q).
        indexed_id m = Some i \<and> po = n_id q)"

definition top_of :: "node list \<Rightarrow> string \<Rightarrow> bool" where
  "top_of cs i = (\<exists>c\<in>set cs. indexed_id c = Some i)"

definition walk_rank :: "node \<Rightarrow> node_lookup \<Rightarrow> node \<Rightarrow> nat" where
  "walk_rank t nl n =
     (case n_id n of
        None \<Rightarrow> 0
      | Some i \<Rightarrow> (case nl i of None \<Rightarrow> 0 | Some m \<Rightarrow> size t - size m))"

section \<open>Ordering Engine\<close>

definition target_order_preference :: "string \<rightharpoonup> int" where
  "target_order_preference = [''3'' \<mapsto> 1, ''2'' \<mapsto> 2]"

text \<open>The inner function \<^verbatim>\<open>sort_key\<close> of \<^verbatim>\<open>sort_clickables\<close>; tuples compare lexicographically.\<close>

definition sort_key_of :: "name_map \<Rightarrow> string \<Rightarrow> clickable \<Rightarrow> int \<times> rat" where
  "sort_key_of name_map start_screen click =
     (let target_id = navigates_to click;
          target_name = strip (get_default name_map target_id ''Unknown'')
      in if from_screen click = start_screen then (0, 0)
         else (case target_order_preference target_name of
                 Some r \<Rightarrow> (1, of_int r)
               | None \<Rightarrow> (2, element_y click)))"

text \<open>\<^verbatim>\<open>sorted(clickables, key=sort_key)\<close>: Python's sort is stable, as \<^const>\<open>sort_key\<close> is.\<close>

definition sort_clickables :: "clickable list \<Rightarrow> name_map \<Rightarrow> string \<Rightarrow> clickable list" where
  "sort_clickables clickables name_map start_screen =
     sort_key (sort_key_of name_map start_screen) clickables"

section \<open>Screenshot cache and fetch\<close>

text \<open>
  The network and the file system are the environment. Its answers are given by two
  functions of the moment of the request (the number of requests made before) and of the
  request itself, so that an answer may differ from one attempt to the next. The world
  keeps the trace of the requests, each labelled with the target id for which the loop of
  \<^verbatim>\<open>main\<close> made it, and the files written.
\<close>

datatype request = Render string | Download string string

record world =
  trace :: "(string \<times> request) list"
  files :: "string \<rightharpoonup> string"

record net =
  render_reply :: "nat \<Rightarrow> string \<Rightarrow> py_exception + string option"
  download_reply :: "nat \<Rightarrow> string \<Rightarrow> string \<Rightarrow> py_exception + string"

definition world0 :: world where
  "world0 = \<lparr> trace = [], files = Map.empty \<rparr>"

text \<open>The token and the file key are fixed for a run and are part of the environment.\<close>

definition get_screenshot_url ::
    "net \<Rightarrow> world \<Rightarrow> string \<Rightarrow> world \<times> (py_exception + string option)" where
  "get_screenshot_url env w nid =
     (w\<lparr> trace := trace w @ [(nid, Render nid)] \<rparr>,
      render_reply env (length (trace w)) nid)"

text \<open>
  \<open>for_id\<close> only labels the trace entry. A failed download (the request or the opening
  of the file raises) writes nothing.
\<close>

definition download_image ::
    "net \<Rightarrow> world \<Rightarrow> string \<Rightarrow> string option \<Rightarrow> string \<Rightarrow> world \<times> (py_exception + bool)" where
  "download_image env w for_id url output_path =
     (case url of
        None \<Rightarrow> (w, Inr False)
      | Some u \<Rightarrow>
          if u = [] then (w, Inr False)
          else (let w' = w\<lparr> trace := trace w @ [(for_id, Download u output_path)] \<rparr>
                in (case download_reply env (length (trace w)) u output_path of
                      Inl e \<Rightarrow> (w', Inl e)
                    | Inr img_data \<Rightarrow>
                        (w'\<lparr> files := (files w')(output_path \<mapsto> img_data) \<rparr>, Inr True))))"

definition screen_name_of :: "name_map \<Rightarrow> string \<Rightarrow> string" where
  "screen_name_of name_map target_id =
     replace_space (strip (get_default name_map target_id ''Target''))"

definition file_path_of :: "name_map \<Rightarrow> string \<Rightarrow> string" where
  "file_path_of name_map target_id =
     ''screenshots/'' @ screen_name_of name_map target_id @ ''.png''"

text \<open>
  One iteration of the loop of \<^verbatim>\<open>main\<close> (lines 146 to 161) on the cache
  \<^verbatim>\<open>downloaded\<close> and the world. Every exception of the \<^verbatim>\<open>try\<close> block is caught: the
  record and the cache stay as they are.
\<close>

definition fetch_item ::
    "net \<Rightarrow> name_map \<Rightarrow> clickable \<Rightarrow> (string \<rightharpoonup> string) \<times> world
      \<Rightarrow> clickable \<times> (string \<rightharpoonup> string) \<times> world" where
  "fetch_item env name_map item st =
     (let (downloaded, w) = st;
          target_id = navigates_to item
      in (case downloaded target_id of
            Some p \<Rightarrow> (item\<lparr> screenshot := Py_Str p \<rparr>, downloaded, w)
          | None \<Rightarrow>
              (let (w1, url) = get_screenshot_url env w target_id;
                   file_path = file_path_of name_map target_id
               in (case url of
                     Inl e \<Rightarrow> (item, downloaded, w1)
                   | Inr u \<Rightarrow>
                       (let (w2, ok) = download_image env w1 target_id u file_path
                        in (case ok of
                              Inr True \<Rightarrow>
                                (item\<lparr> screenshot := Py_Str file_path \<rparr>,
                                 downloaded(target_id \<mapsto> file_path), w2)
                            | Inr False \<Rightarrow> (item, downloaded, w2)
                            | Inl e \<Rightarrow> (item, downloaded, w2)))))))"

fun fetch_all ::
    "net \<Rightarrow> name_map \<Rightarrow> clickable list \<Rightarrow> (string \<rightharpoonup> string) \<times> world
      \<Rightarrow> clickable list \<times> (string \<rightharpoonup> string) \<times> world" where
  "fetch_all env name_map [] st = ([], st)"
| "fetch_all env name_map (item # rest) st =
     (let (item', st') = fetch_item env name_map item st;
          (rest', st'') = fetch_all env name_map rest st'
      in (item' # rest', st''))"

text \<open>The number of render requests and of downloads made for a target id.\<close>

definition render_count :: "string \<Rightarrow> world \<Rightarrow> nat" where
  "render_count t w = length (filter (\<lambda>e. e = (t, Render t)) (trace w))"

fun is_download :: "request \<Rightarrow> bool" where
  "is_download (Download u p) = True"
| "is_download (Render n) = False"

definition download_count :: "string \<Rightarrow> world \<Rightarrow> nat" where
  "download_count t w = length (filter (\<lambda>e. fst e = t \<and> is_download (snd e)) (trace w))"

section \<open>Summary and the run\<close>

text \<open>\<^verbatim>\<open>item.get("screenshot", default)\<close>: the default is taken only when the key is missing.\<close>

definition get_screenshot :: "clickable \<Rightarrow> string \<Rightarrow> string option" where
  "get_screenshot item dflt =
     (case screenshot item of
        Key_Missing \<Rightarrow> Some dflt
      | Py_None \<Rightarrow> None
      | Py_Str p \<Rightarrow> Some p)"

definition summary_line :: "int \<Rightarrow> clickable \<Rightarrow> string \<Rightarrow> string" where
  "summary_line idx item img =
     str_int idx @ ''. Click_COORD, '' @ str_int (pos_x (tap_position item)) @ '', ''
       @ str_int (pos_y (tap_position item)) @ '', CHECK, '' @ img"

text \<open>The loop of \<^verbatim>\<open>generate_summary\<close> from index \<open>idx\<close> on; an exception ends it.\<close>

fun summary_loop ::
    "int \<Rightarrow> clickable list \<Rightarrow> name_map \<Rightarrow> string list \<Rightarrow> py_exception + string list" where
  "summary_loop idx [] name_map lines = Inr lines"
| "summary_loop idx (item # rest) name_map lines =
     (let target_id = navigates_to item;
          screen = replace_space (strip (get_default name_map target_id ''Target''))
      in (case basename (get_screenshot item (screen @ ''.png'')) of
            Inl e \<Rightarrow> Inl e
          | Inr img \<Rightarrow> summary_loop (idx + 1) rest name_map (lines @ [summary_line idx item img])))"

definition generate_summary :: "clickable list \<Rightarrow> name_map \<Rightarrow> py_exception + string list" where
  "generate_summary clickables name_map = summary_loop 1 clickables name_map []"

text \<open>
  \<^verbatim>\<open>main\<close> after the document has been fetched. An exception of the extraction is
  not caught, and nothing is written then. The ordered records are written before the
  summary is generated; an exception of \<^verbatim>\<open>generate_summary\<close> is not caught, so the
  summary file is then not written. A file that is not written is \<open>None\<close>.
\<close>

record run =
  clickable_elements_json :: "clickable list option"
  click_coord_summary_txt :: "string list option"
  uncaught :: "py_exception option"
  final_world :: world

definition main :: "net \<Rightarrow> node \<Rightarrow> string \<Rightarrow> run option" where
  "main env document start =
     (let (name_map, parent_map, node_lookup) =
            build_node_maps document (Map.empty, Map.empty, Map.empty) None
      in (case extract_clickables document parent_map node_lookup [] of
            None \<Rightarrow> None
          | Some (Inl e) \<Rightarrow>
              Some \<lparr> clickable_elements_json = None,
                     click_coord_summary_txt = None,
                     uncaught = Some e,
                     final_world = world0 \<rparr>
          | Some (Inr clickables) \<Rightarrow>
              (let ordered = sort_clickables clickables name_map start;
                   (ordered', downloaded, w) = fetch_all env name_map ordered (Map.empty, world0)
               in Some (case generate_summary ordered' name_map of
                          Inl e \<Rightarrow>
                            \<lparr> clickable_elements_json = Some ordered',
                              click_coord_summary_txt = None,
                              uncaught = Some e,
                              final_world = w \<rparr>
                        | Inr summary \<Rightarrow>
                            \<lparr> clickable_elements_json = Some ordered',
                              click_coord_summary_txt = Some summary,
                              uncaught = None,
                              final_world = w \<rparr>))))"

section \<open>Example inputs\<close>

definition ex_click :: "string \<Rightarrow> string \<Rightarrow> rat \<Rightarrow> clickable" where
  "ex_click scr tgt ypos =
     \<lparr> name = ''Button'', from_screen = scr, tap_position = \<lparr> pos_x = 0, pos_y = 0 \<rparr>,
       navigates_to = tgt, interaction_type = ''ON_CLICK'', node_id = None,
       element_y = ypos, screenshot = Py_None \<rparr>"

definition ex_names :: name_map where
  "ex_names = [''10:1'' \<mapsto> '' 3 '', ''10:2'' \<mapsto> ''2'', ''10:3'' \<mapsto> ''Home Page'',
               ''10:4'' \<mapsto> ''Home_Page '']"

definition ex_button :: node where
  "ex_button = Node (Some ''1:2'') (Some ''Go'') (Some ''RECTANGLE'')
     (Some \<lparr> box_x = 110, box_y = 210, box_width = 20, box_height = 20 \<rparr>) []
     (Some [\<lparr> itype = Some ''ON_HOVER'', target = Some ''2:1'' \<rparr>,
            \<lparr> itype = None, target = None \<rparr>])
     (Some ''9:9'')"

definition ex_link :: node where
  "ex_link = Node (Some ''1:3'') None (Some ''TEXT'')
     (Some \<lparr> box_x = 101, box_y = 300, box_width = 20, box_height = 21 \<rparr>) []
     None (Some ''2:1'')"

definition ex_label :: node where
  "ex_label = Node None (Some ''Label'') (Some ''TEXT'') None [] None None"

definition ex_screen :: node where
  "ex_screen = Node (Some ''1:1'') (Some ''Home'') (Some ''FRAME'')
     (Some \<lparr> box_x = 100, box_y = 200, box_width = 500, box_height = 800 \<rparr>)
     [ex_button, ex_link, ex_label] None None"

definition ex_details :: node where
  "ex_details = Node (Some ''2:1'') (Some ''Details'') (Some ''FRAME'')
     (Some \<lparr> box_x = 700, box_y = 200, box_width = 500, box_height = 800 \<rparr>) [] None None"

definition ex_doc :: node where
  "ex_doc = Node (Some ''0:0'') (Some ''Document'') (Some ''DOCUMENT'') None
     [ex_screen, ex_details] None None"

text \<open>The two records the extractor yields for \<open>ex_doc\<close>.\<close>

definition ex_rec_button :: clickable where
  "ex_rec_button =
     \<lparr> name = ''Go'', from_screen = ''Home'', tap_position = \<lparr> pos_x = 20, pos_y = 20 \<rparr>,
       navigates_to = ''2:1'', interaction_type = ''ON_HOVER'', node_id = Some ''1:2'',
       element_y = 210, screenshot = Py_None \<rparr>"

definition ex_rec_link :: clickable where
  "ex_rec_link =
     \<lparr> name = ''Unnamed'', from_screen = ''Home'', tap_position = \<lparr> pos_x = 11, pos_y = 110 \<rparr>,
       navigates_to = ''2:1'', interaction_type = ''ON_CLICK'', node_id = Some ''1:3'',
       element_y = 300, screenshot = Py_None \<rparr>"

text \<open>
  Three environments: every request succeeds; no render URL is available; the first
  request of the run fails and the later ones succeed.
\<close>

definition ex_env_ok :: net where
  "ex_env_ok = \<lparr> render_reply = (\<lambda>t n. Inr (Some (''https://img/'' @ n))),
                 download_reply = (\<lambda>t u p. Inr (''PNG:'' @ u)) \<rparr>"

definition ex_env_no_url :: net where
  "ex_env_no_url = \<lparr> render_reply = (\<lambda>t n. Inr None),
                     download_reply = (\<lambda>t u p. Inl RequestException) \<rparr>"

definition ex_env_flaky :: net where
  "ex_env_flaky = \<lparr> render_reply = (\<lambda>t n. if t = 0 then Inl RequestException
                                            else Inr (Some (''https://img/'' @ n))),
                    download_reply = (\<lambda>t u p. Inr (''PNG:'' @ u)) \<rparr>"

definition ex_maps :: "name_map \<times> parent_map \<times> node_lookup" where
  "ex_maps = build_node_maps ex_doc (Map.empty, Map.empty, Map.empty) None"

text \<open>A document in which a node repeats the id of its parent.\<close>

definition loop_node :: node where
  "loop_node = Node (Some ''7:7'') (Some ''Group'') (Some ''GROUP'') None [] None None"

definition loop_doc :: node where
  "loop_doc = Node (Some ''7:7'') (Some ''Page'') (Some ''CANVAS'') None [loop_node] None None"

definition loop_parents :: parent_map where
  "loop_parents = [''7:7'' \<mapsto> Some ''7:7'']"

definition loop_lookup :: node_lookup where
  "loop_lookup = [''7:7'' \<mapsto> loop_node]"



text \<open>A screen with the given box that holds one linked rectangle with the given box.\<close>

definition button_at :: "box \<Rightarrow> node" where
  "button_at bb = Node (Some ''3:2'') (Some ''Tap'') (Some ''RECTANGLE'') (Some bb) []
     None (Some ''3:1'')"

definition screen_with_button :: "box \<Rightarrow> box \<Rightarrow> node" where
  "screen_with_button sb bb =
     Node (Some ''3:1'') (Some ''Screen'') (Some ''FRAME'') (Some sb) [button_at bb] None None"

text \<open>
  Two such documents, all of whose numbers are doubles: a screen whose origin is off zero
  by \<open>2 ^ - 48\<close>, and a screen and a rectangle at \<open>x = 2 ^ 54\<close>.
\<close>

definition tiny_screen_box :: box where
  "tiny_screen_box =
     \<lparr> box_x = 1 / 2 ^ 48, box_y = - (1 / 2 ^ 48), box_width = 500, box_height = 800 \<rparr>"

definition tiny_button_box :: box where
  "tiny_button_box = \<lparr> box_x = 100, box_y = 200, box_width = 3, box_height = 1 \<rparr>"

definition far_screen_box :: box where
  "far_screen_box = \<lparr> box_x = 2 ^ 54, box_y = 0, box_width = 500, box_height = 800 \<rparr>"

definition far_button_box :: box where
  "far_button_box = \<lparr> box_x = 2 ^ 54, box_y = 0, box_width = 3, box_height = 3 \<rparr>"

text \<open>A screen at the origin, and a rectangle whose midpoint is \<open>(0.5, 1.5)\<close>.\<close>

definition origin_screen_box :: box where
  "origin_screen_box = \<lparr> box_x = 0, box_y = 0, box_width = 500, box_height = 800 \<rparr>"

definition half_button_box :: box where
  "half_button_box = \<lparr> box_x = 0, box_y = 0, box_width = 1, box_height = 3 \<rparr>"


text \<open>The record of the rectangle of \<open>screen_with_button\<close> with a given tap position.\<close>

definition button_rec :: "int \<Rightarrow> int \<Rightarrow> rat \<Rightarrow> clickable" where
  "button_rec tap_x tap_y ypos =
     \<lparr> name = ''Tap'', from_screen = ''Screen'',
       tap_position = \<lparr> pos_x = tap_x, pos_y = tap_y \<rparr>,
       navigates_to = ''3:1'', interaction_type = ''ON_CLICK'', node_id = Some ''3:2'',
       element_y = ypos, screenshot = Py_None \<rparr>"

lemmas ex_nodes_defs =
  ex_doc_def ex_screen_def ex_details_def ex_button_def ex_link_def ex_label_def

section \<open>Properties of the Ordering Engine\<close>

text \<open>
  Claim C7. The Ordering Engine is a stable total sort: records with equal sort keys keep
  their relative input order, the output is a permutation of the input, its keys are in
  ascending order, and sorting the output again returns it unchanged.
\<close>

theorem sort_clickables_stable_perm_idem:
  "filter (\<lambda>c. sort_key_of nm st c = k) (sort_clickables cs nm st)
     = filter (\<lambda>c. sort_key_of nm st c = k) cs
   \<and> mset (sort_clickables cs nm st) = mset cs
   \<and> sorted (map (sort_key_of nm st) (sort_clickables cs nm st))
   \<and> sort_clickables (sort_clickables cs nm st) nm st = sort_clickables cs nm st"
  unfolding sort_clickables_def
  by (simp add: sort_key_stable sort_key_id_if_sorted)

lemma sort_key_of_tiers:
  "sort_key_of nm st c =
     (if from_screen c = st then (0, 0)
      else if strip (get_default nm (navigates_to c) ''Unknown'') = ''3'' then (1, 1)
      else if strip (get_default nm (navigates_to c) ''Unknown'') = ''2'' then (1, 2)
      else (2, element_y c))"
  by (simp add: sort_key_of_def target_order_preference_def Let_def)

lemma filter_key_singleton:
  "distinct (map f xs) \<Longrightarrow> k \<in> set xs \<Longrightarrow> filter (\<lambda>x. f k = f x) xs = [k]"
proof (induction xs)
  case Nil then show ?case by simp
next
  case (Cons a xs)
  show ?case
  proof (cases "a = k")
    case True
    with Cons.prems have "\<forall>x\<in>set xs. f k \<noteq> f x" by auto
    then have "filter (\<lambda>x. f k = f x) xs = []" by (simp add: filter_empty_conv)
    with True show ?thesis by simp
  next
    case False
    with Cons.prems have kx: "k \<in> set xs" by simp
    with Cons.prems have ne: "f k \<noteq> f a" by (auto simp: image_iff)
    from Cons.prems have "distinct (map f xs)" by simp
    from Cons.IH[OF this kx] ne show ?thesis by simp
  qed
qed

lemma sort_key_unique_keys:
  assumes "mset xs = mset ys" and "distinct (map f ys)" and "sorted (map f ys)"
  shows "sort_key f xs = ys"
proof (rule properties_for_sort_key)
  show "mset ys = mset xs" using assms(1) by simp
  show "sorted (map f ys)" by fact
  fix k assume k: "k \<in> set ys"
  have "mset (map f xs) = mset (map f ys)" using assms(1) by (metis mset_map)
  then have dx: "distinct (map f xs)" using assms(2) by (metis mset_eq_imp_distinct_iff)
  have kx: "k \<in> set xs" using k assms(1) by (metis set_mset_mset)
  show "filter (\<lambda>x. f k = f x) ys = filter (\<lambda>x. f k = f x) xs"
    using filter_key_singleton[OF assms(2) k] filter_key_singleton[OF dx kx] by simp
qed

text \<open>
  Claim C4. The sort key has two levels: \<open>(0, 0)\<close> for a record leaving the start screen;
  otherwise \<open>(1, 1)\<close> when the stripped display name of the target (default "Unknown") is
  "3" and \<open>(1, 2)\<close> when it is "2"; otherwise \<open>(2, element_y)\<close>. Records \<open>A\<close> (from
  the start screen), \<open>B\<close> (target named "3"), \<open>C\<close> (target named "2"), \<open>D\<close> (ordinary,
  element_y 50) and \<open>E\<close> (ordinary, element_y 10), given in any order, come out as
  \<open>A, B, C, E, D\<close>.
\<close>

theorem sort_clickables_tiers:
  assumes A: "from_screen A = st"
    and B: "from_screen B \<noteq> st" "strip (get_default nm (navigates_to B) ''Unknown'') = ''3''"
    and C: "from_screen C \<noteq> st" "strip (get_default nm (navigates_to C) ''Unknown'') = ''2''"
    and D: "from_screen D \<noteq> st"
           "strip (get_default nm (navigates_to D) ''Unknown'') \<notin> {''3'', ''2''}"
           "element_y D = 50"
    and E: "from_screen E \<noteq> st"
           "strip (get_default nm (navigates_to E) ''Unknown'') \<notin> {''3'', ''2''}"
           "element_y E = 10"
    and xs: "mset xs = mset [A, B, C, D, E]"
  shows "sort_key_of nm st c =
           (if from_screen c = st then (0, 0)
            else if strip (get_default nm (navigates_to c) ''Unknown'') = ''3'' then (1, 1)
            else if strip (get_default nm (navigates_to c) ''Unknown'') = ''2'' then (1, 2)
            else (2, element_y c))
       \<and> map (sort_key_of nm st) [A, B, C, D, E] = [(0, 0), (1, 1), (1, 2), (2, 50), (2, 10)]
       \<and> sort_clickables xs nm st = [A, B, C, E, D]"
proof -
  have keys: "sort_key_of nm st A = (0, 0)" "sort_key_of nm st B = (1, 1)"
    "sort_key_of nm st C = (1, 2)" "sort_key_of nm st D = (2, 50)"
    "sort_key_of nm st E = (2, 10)"
    using assms by (simp_all add: sort_key_of_tiers)
  have "mset xs = mset [A, B, C, E, D]" using xs by (simp add: add_mset_commute)
  moreover have "distinct (map (sort_key_of nm st) [A, B, C, E, D])" by (simp add: keys)
  moreover have "sorted (map (sort_key_of nm st) [A, B, C, E, D])" by (simp add: keys)
  ultimately have "sort_key (sort_key_of nm st) xs = [A, B, C, E, D]"
    by (rule sort_key_unique_keys)
  then show ?thesis using sort_key_of_tiers [of nm st c] by (simp add: keys sort_clickables_def)
qed

theorem sort_clickables_tiers_witness:
  "sort_clickables
     [ex_click ''Home'' ''10:3'' 50, ex_click ''Home'' ''10:2'' 0, ex_click ''Home'' ''10:3'' 10,
      ex_click ''Splash'' ''10:3'' 99, ex_click ''Home'' ''10:1'' 700] ex_names ''Splash''
   = [ex_click ''Splash'' ''10:3'' 99, ex_click ''Home'' ''10:1'' 700, ex_click ''Home'' ''10:2'' 0,
      ex_click ''Home'' ''10:3'' 10, ex_click ''Home'' ''10:3'' 50]"
  using sort_clickables_tiers [of "ex_click ''Splash'' ''10:3'' 99" "''Splash''"
      "ex_click ''Home'' ''10:1'' 700" ex_names "ex_click ''Home'' ''10:2'' 0"
      "ex_click ''Home'' ''10:3'' 50" "ex_click ''Home'' ''10:3'' 10"
      "[ex_click ''Home'' ''10:3'' 50, ex_click ''Home'' ''10:2'' 0, ex_click ''Home'' ''10:3'' 10,
        ex_click ''Splash'' ''10:3'' 99, ex_click ''Home'' ''10:1'' 700]"]
  by (simp add: ex_click_def ex_names_def get_default_def strip_def is_space_def)

section \<open>Properties of the Tree Indexer\<close>

lemma set_ids_of: "set (ids_of t) = {i. \<exists>n\<in>set (nodes_of t). indexed_id n = Some i}"
  by (auto simp: ids_of_def split: option.splits)

lemma set_ids_of_Node:
  "set (ids_of (Node i nm ty bb cs pis tr)) =
     (\<Union>c\<in>set cs. set (ids_of c)) \<union> set_option (indexed_id (Node i nm ty bb cs pis tr))"
  by (auto simp: set_ids_of)

lemma add3_add3: "add3 S (add3 T k) = add3 (T \<union> S) k"
  by (simp add: add3_def Un_assoc)

lemma build_node_maps_Node:
  "build_node_maps (Node i nm ty bb cs pis tr) maps parent =
     build_children cs
       (case indexed_id (Node i nm ty bb cs pis tr) of
          None \<Rightarrow> maps
        | Some k \<Rightarrow>
            ((fst maps)(k \<mapsto> (case nm of None \<Rightarrow> ''Unnamed'' | Some s \<Rightarrow> s)),
             (fst (snd maps))(k \<mapsto> (case parent of None \<Rightarrow> None | Some p \<Rightarrow> n_id p)),
             (snd (snd maps))(k \<mapsto> Node i nm ty bb cs pis tr)))
       (Node i nm ty bb cs pis tr)"
  by (cases maps) (auto simp: indexed_id_def Let_def split: option.splits)

lemma build_children_keys:
  assumes "\<And>c maps parent. c \<in> set cs \<Longrightarrow>
             keys3 (build_node_maps c maps parent) = add3 (set (ids_of c)) (keys3 maps)"
  shows "keys3 (build_children cs maps node) = add3 (\<Union>c\<in>set cs. set (ids_of c)) (keys3 maps)"
  using assms
proof (induction cs arbitrary: maps)
  case Nil
  show ?case by (simp add: add3_def)
next
  case (Cons c cs)
  have "keys3 (build_children (c # cs) maps node)
      = add3 (\<Union>c\<in>set cs. set (ids_of c)) (add3 (set (ids_of c)) (keys3 maps))"
    using Cons by simp
  then show ?case by (simp add: add3_add3)
qed

lemma build_node_maps_keys:
  "keys3 (build_node_maps n maps parent) = add3 (set (ids_of n)) (keys3 maps)"
proof (induction n arbitrary: maps parent)
  case (Node i nm ty bb cs pis tr)
  let ?n = "Node i nm ty bb cs pis tr"
  have ch: "\<And>m. keys3 (build_children cs m ?n) = add3 (\<Union>c\<in>set cs. set (ids_of c)) (keys3 m)"
    by (rule build_children_keys) (rule Node.IH)
  show ?case
  proof (cases "indexed_id ?n")
    case None
    then show ?thesis
      by (simp only: build_node_maps_Node ch set_ids_of_Node) simp
  next
    case (Some k)
    then show ?thesis
      by (simp only: build_node_maps_Node ch set_ids_of_Node)
         (auto simp: add3_def keys3_def)
  qed
qed

lemma nodes_of_ex_doc:
  "nodes_of ex_doc = [ex_button, ex_link, ex_label, ex_screen, ex_details, ex_doc]"
  by (simp add: ex_nodes_defs)

lemma ids_of_ex_doc: "ids_of ex_doc = [''1:2'', ''1:3'', ''1:1'', ''2:1'', ''0:0'']"
  unfolding ids_of_def nodes_of_ex_doc
  by (simp add: indexed_id_def ex_nodes_defs)

text \<open>
  Claim C8. The three index maps are built together: after indexing a tree from empty
  maps they have the same keys, namely the non-empty ids of the tree's nodes. So every
  key of \<open>parent_of\<close> or \<open>node_of\<close> is a key of \<open>name_of\<close>, every node with an id is in
  all three maps or in none, and a node with a non-empty id is in all three.
\<close>

theorem index_maps_built_together:
  assumes built: "build_node_maps tree (Map.empty, Map.empty, Map.empty) None = (nm, pm, nl)"
  shows "dom pm = dom nm \<and> dom nl = dom nm \<and> dom nm = set (ids_of tree)
       \<and> (\<forall>n\<in>set (nodes_of tree). \<forall>i. n_id n = Some i \<longrightarrow>
             (i \<in> dom nm \<and> i \<in> dom pm \<and> i \<in> dom nl)
           \<or> (i \<notin> dom nm \<and> i \<notin> dom pm \<and> i \<notin> dom nl))
       \<and> (\<forall>n\<in>set (nodes_of tree). \<forall>i. n_id n = Some i \<and> i \<noteq> [] \<longrightarrow>
             i \<in> dom nm \<and> i \<in> dom pm \<and> i \<in> dom nl)"
proof -
  have "keys3 (nm, pm, nl) = add3 (set (ids_of tree)) (keys3 (Map.empty, Map.empty, Map.empty))"
    using build_node_maps_keys [of tree "(Map.empty, Map.empty, Map.empty)" None] built by simp
  then have doms: "dom nm = set (ids_of tree)" "dom pm = set (ids_of tree)"
    "dom nl = set (ids_of tree)"
    by (simp_all add: keys3_def add3_def)
  have "i \<in> set (ids_of tree)" if "n \<in> set (nodes_of tree)" "n_id n = Some i" "i \<noteq> []" for n i
  proof -
    have "indexed_id n = Some i" using that by (simp add: indexed_id_def)
    with that(1) show ?thesis unfolding set_ids_of by blast
  qed
  with doms show ?thesis by auto
qed

theorem index_maps_built_together_witness:
  "dom (fst (snd ex_maps)) = dom (fst ex_maps) \<and> dom (snd (snd ex_maps)) = dom (fst ex_maps)
   \<and> dom (fst ex_maps) = {''1:2'', ''1:3'', ''1:1'', ''2:1'', ''0:0''}
   \<and> ''1:3'' \<in> dom (fst (snd ex_maps))"
  using index_maps_built_together [of ex_doc "fst ex_maps" "fst (snd ex_maps)" "snd (snd ex_maps)"]
  by (simp add: ex_maps_def ids_of_ex_doc)

section \<open>Structure of the index maps\<close>

lemma self_in_nodes_of: "t \<in> set (nodes_of t)"
  by (cases t) simp

lemma set_nodes_of_Node:
  "set (nodes_of (Node i nm ty bb cs pis tr)) =
     insert (Node i nm ty bb cs pis tr) (\<Union>c\<in>set cs. set (nodes_of c))"
  by auto

lemma child_size: "m \<in> set (children q) \<Longrightarrow> size m < size q"
  by (cases q) (auto simp: less_Suc_eq_le intro: size_list_estimation')

lemma nodes_of_size: "q \<in> set (nodes_of t) \<Longrightarrow> size q \<le> size t"
proof (induction t)
  case (Node i nm ty bb cs pis tr)
  from Node.prems consider "q = Node i nm ty bb cs pis tr"
    | c where "c \<in> set cs" "q \<in> set (nodes_of c)"
    unfolding set_nodes_of_Node by blast
  then show ?case
  proof cases
    case 1 then show ?thesis by simp
  next
    case 2
    then have "size q \<le> size c" by (rule Node.IH)
    moreover have "size c < size (Node i nm ty bb cs pis tr)"
      using 2(1) child_size [of c "Node i nm ty bb cs pis tr"] by simp
    ultimately show ?thesis by linarith
  qed
qed

lemma nodes_of_children:
  "q \<in> set (nodes_of t) \<Longrightarrow> m \<in> set (children q) \<Longrightarrow> m \<in> set (nodes_of t)"
proof (induction t)
  case (Node i nm ty bb cs pis tr)
  from Node.prems(1) consider "q = Node i nm ty bb cs pis tr"
    | c where "c \<in> set cs" "q \<in> set (nodes_of c)"
    unfolding set_nodes_of_Node by blast
  then show ?case
  proof cases
    case 1
    with Node.prems(2) have "m \<in> set cs" by simp
    then show ?thesis unfolding set_nodes_of_Node using self_in_nodes_of by blast
  next
    case 2
    then have "m \<in> set (nodes_of c)" using Node.prems(2) by (rule Node.IH)
    with 2(1) show ?thesis unfolding set_nodes_of_Node by blast
  qed
qed

lemma build_children_lookup:
  assumes "\<And>c maps parent p n. c \<in> set cs \<Longrightarrow>
             snd (snd (build_node_maps c maps parent)) p = Some n \<Longrightarrow>
             snd (snd maps) p = Some n \<or> (n \<in> set (nodes_of c) \<and> indexed_id n = Some p)"
    and "snd (snd (build_children cs maps node)) p = Some n"
  shows "snd (snd maps) p = Some n \<or> lookup_from cs p n"
  using assms
proof (induction cs arbitrary: maps)
  case Nil
  then show ?case by simp
next
  case (Cons c cs)
  have "snd (snd (build_children cs (build_node_maps c maps (Some node)) node)) p = Some n"
    using Cons.prems(2) by simp
  with Cons.IH [of "build_node_maps c maps (Some node)"] Cons.prems(1)
  have "snd (snd (build_node_maps c maps (Some node))) p = Some n \<or> lookup_from cs p n"
    by simp
  then show ?case
  proof
    assume "snd (snd (build_node_maps c maps (Some node))) p = Some n"
    from Cons.prems(1) [OF _ this] show ?thesis by (auto simp: lookup_from_def)
  next
    assume "lookup_from cs p n"
    then show ?thesis by (auto simp: lookup_from_def)
  qed
qed

lemma build_node_maps_lookup:
  "snd (snd (build_node_maps t maps parent)) p = Some n \<Longrightarrow>
     snd (snd maps) p = Some n \<or> (n \<in> set (nodes_of t) \<and> indexed_id n = Some p)"
proof (induction t arbitrary: maps parent p n)
  case (Node i nm ty bb cs pis tr)
  let ?t = "Node i nm ty bb cs pis tr"
  let ?maps' = "case indexed_id ?t of None \<Rightarrow> maps
        | Some k \<Rightarrow>
            ((fst maps)(k \<mapsto> (case nm of None \<Rightarrow> ''Unnamed'' | Some s \<Rightarrow> s)),
             (fst (snd maps))(k \<mapsto> (case parent of None \<Rightarrow> None | Some p \<Rightarrow> n_id p)),
             (snd (snd maps))(k \<mapsto> ?t))"
  have "snd (snd (build_children cs ?maps' ?t)) p = Some n"
    using Node.prems by (simp only: build_node_maps_Node)
  with Node.IH have "snd (snd ?maps') p = Some n \<or> lookup_from cs p n"
    by (intro build_children_lookup) blast+
  then show ?case
  proof
    assume "snd (snd ?maps') p = Some n"
    then have "snd (snd maps) p = Some n \<or> (n = ?t \<and> indexed_id ?t = Some p)"
      by (cases "indexed_id ?t") (auto split: if_splits)
    then show ?thesis unfolding set_nodes_of_Node by blast
  next
    assume "lookup_from cs p n"
    then show ?thesis unfolding set_nodes_of_Node lookup_from_def by blast
  qed
qed

lemma build_children_parent:
  assumes "\<And>c maps parent i po. c \<in> set cs \<Longrightarrow>
             fst (snd (build_node_maps c maps parent)) i = Some po \<Longrightarrow>
             fst (snd maps) i = Some po
             \<or> (indexed_id c = Some i \<and> po = (case parent of None \<Rightarrow> None | Some p \<Rightarrow> n_id p))
             \<or> edge_from [c] i po"
    and "fst (snd (build_children cs maps node)) i = Some po"
  shows "fst (snd maps) i = Some po \<or> (top_of cs i \<and> po = n_id node) \<or> edge_from cs i po"
  using assms
proof (induction cs arbitrary: maps)
  case Nil
  then show ?case by simp
next
  case (Cons c cs)
  have "fst (snd (build_children cs (build_node_maps c maps (Some node)) node)) i = Some po"
    using Cons.prems(2) by simp
  with Cons.IH [of "build_node_maps c maps (Some node)"] Cons.prems(1)
  have "fst (snd (build_node_maps c maps (Some node))) i = Some po
        \<or> (top_of cs i \<and> po = n_id node) \<or> edge_from cs i po"
    by simp
  then consider (a) "fst (snd (build_node_maps c maps (Some node))) i = Some po"
    | (b) "top_of cs i \<and> po = n_id node" | (c) "edge_from cs i po"
    by blast
  then show ?case
  proof cases
    case a
    from Cons.prems(1) [OF _ this]
    have "fst (snd maps) i = Some po \<or> (indexed_id c = Some i \<and> po = n_id node)
          \<or> edge_from [c] i po" by simp
    then show ?thesis by (auto simp: top_of_def edge_from_def)
  next
    case b
    then show ?thesis by (auto simp: top_of_def)
  next
    case c
    then show ?thesis by (auto simp: edge_from_def)
  qed
qed

lemma build_node_maps_parent:
  "fst (snd (build_node_maps t maps parent)) i = Some po \<Longrightarrow>
     fst (snd maps) i = Some po
     \<or> (indexed_id t = Some i \<and> po = (case parent of None \<Rightarrow> None | Some p \<Rightarrow> n_id p))
     \<or> edge_from [t] i po"
proof (induction t arbitrary: maps parent i po)
  case (Node j nm ty bb cs pis tr)
  let ?t = "Node j nm ty bb cs pis tr"
  let ?maps' = "case indexed_id ?t of None \<Rightarrow> maps
        | Some k \<Rightarrow>
            ((fst maps)(k \<mapsto> (case nm of None \<Rightarrow> ''Unnamed'' | Some s \<Rightarrow> s)),
             (fst (snd maps))(k \<mapsto> (case parent of None \<Rightarrow> None | Some p \<Rightarrow> n_id p)),
             (snd (snd maps))(k \<mapsto> ?t))"
  have "fst (snd (build_children cs ?maps' ?t)) i = Some po"
    using Node.prems by (simp only: build_node_maps_Node)
  with Node.IH
  have "fst (snd ?maps') i = Some po \<or> (top_of cs i \<and> po = n_id ?t) \<or> edge_from cs i po"
    by (intro build_children_parent) blast+
  then consider (a) "fst (snd ?maps') i = Some po"
    | (b) "top_of cs i \<and> po = n_id ?t" | (c) "edge_from cs i po"
    by blast
  then show ?case
  proof cases
    case a
    then show ?thesis by (cases "indexed_id ?t") (auto split: if_splits)
  next
    case b
    then obtain c where "c \<in> set cs" "indexed_id c = Some i" "po = n_id ?t"
      by (auto simp: top_of_def)
    moreover have "?t \<in> set (nodes_of ?t)" by (rule self_in_nodes_of)
    moreover have "children ?t = cs" "n_id ?t = j" by simp_all
    ultimately have "\<exists>q\<in>set (nodes_of ?t). \<exists>m\<in>set (children q). indexed_id m = Some i \<and> po = n_id q"
      by metis
    then have "edge_from [?t] i po" by (simp add: edge_from_def del: nodes_of.simps)
    then show ?thesis by blast
  next
    case c
    then have "edge_from [?t] i po"
      unfolding edge_from_def by (auto simp: set_nodes_of_Node simp del: nodes_of.simps)
    then show ?thesis by blast
  qed
qed

lemma concat_distinct_unique:
  "distinct (concat (map g xs)) \<Longrightarrow> x \<in> set xs \<Longrightarrow> y \<in> set xs \<Longrightarrow>
     a \<in> set (g x) \<Longrightarrow> a \<in> set (g y) \<Longrightarrow> x = y"
  by (induction xs) auto

lemma indexed_unique:
  assumes "distinct (ids_of t)" "m \<in> set (nodes_of t)" "m' \<in> set (nodes_of t)"
    "indexed_id m = Some i" "indexed_id m' = Some i"
  shows "m = m'"
  using concat_distinct_unique [OF assms(1) [unfolded ids_of_def] assms(2,3), of i] assms(4,5)
  by simp

lemma indexed_id_SomeD: "indexed_id n = Some p \<Longrightarrow> n_id n = Some p \<and> p \<noteq> []"
  by (auto simp: indexed_id_def split: option.splits if_splits)

lemma next_current_SomeD:
  assumes "next_current n pm nl = Some n'"
  obtains i p where "n_id n = Some i" "pm i = Some (Some p)" "p \<noteq> []" "nl p = Some n'"
  using assms by (auto simp: next_current_def Let_def split: option.splits if_splits)

lemma wf_parent_step_built:
  assumes d: "distinct (ids_of t)"
    and built: "build_node_maps t (Map.empty, Map.empty, Map.empty) None = (nm, pm, nl)"
  shows "wf (parent_step pm nl)"
proof -
  have nl_D: "m \<in> set (nodes_of t) \<and> indexed_id m = Some p" if "nl p = Some m" for p m
    using build_node_maps_lookup [of t "(Map.empty, Map.empty, Map.empty)" None p m] that built
    by simp
  have pm_D: "edge_from [t] i (Some p)" if "pm i = Some (Some p)" for i p
    using build_node_maps_parent [of t "(Map.empty, Map.empty, Map.empty)" None i "Some p"]
      that built
    by simp
  have "keys3 (nm, pm, nl) = add3 (set (ids_of t)) (keys3 (Map.empty, Map.empty, Map.empty))"
    using build_node_maps_keys [of t "(Map.empty, Map.empty, Map.empty)" None] built by simp
  then have dom_nl: "dom nl = set (ids_of t)" by (simp add: keys3_def add3_def)
  have nl_I: "nl i = Some m" if "m \<in> set (nodes_of t)" "indexed_id m = Some i" for i m
  proof -
    from that have "i \<in> dom nl" unfolding dom_nl set_ids_of by blast
    then obtain m' where m': "nl i = Some m'" by blast
    from nl_D [OF this] d that have "m' = m" by (metis indexed_unique)
    with m' show ?thesis by simp
  qed
  have "parent_step pm nl \<subseteq> measure (walk_rank t nl)"
  proof
    fix e assume "e \<in> parent_step pm nl"
    then obtain n' n where e: "e = (n', n)" and nx: "next_current n pm nl = Some n'"
      by (auto simp: parent_step_def)
    from nx obtain i p where ip: "n_id n = Some i" "pm i = Some (Some p)" "p \<noteq> []" "nl p = Some n'"
      by (rule next_current_SomeD)
    from nl_D [OF ip(4)] have n': "n' \<in> set (nodes_of t)" "indexed_id n' = Some p" by simp_all
    from pm_D [OF ip(2)] obtain q m where qm: "q \<in> set (nodes_of t)" "m \<in> set (children q)"
      "indexed_id m = Some i" "n_id q = Some p"
      by (auto simp: edge_from_def simp del: nodes_of.simps)
    from qm(4) ip(3) have "indexed_id q = Some p" by (simp add: indexed_id_def)
    with d qm(1) n' have q: "q = n'" by (metis indexed_unique)
    have "m \<in> set (nodes_of t)" using qm(1,2) by (rule nodes_of_children)
    then have nli: "nl i = Some m" using qm(3) by (rule nl_I)
    have "size m < size n'" using qm(2) q child_size by blast
    moreover have "size n' \<le> size t" using n'(1) by (rule nodes_of_size)
    moreover have "walk_rank t nl n = size t - size m" by (simp add: walk_rank_def ip(1) nli)
    moreover have "walk_rank t nl n' = size t - size n'"
      using indexed_id_SomeD [OF n'(2)] ip(4) by (simp add: walk_rank_def)
    ultimately have "walk_rank t nl n' < walk_rank t nl n" by linarith
    with e show "e \<in> measure (walk_rank t nl)" by simp
  qed
  then show ?thesis by (rule wf_subset [OF wf_measure])
qed

lemma wf_parent_step_ex_maps: "wf (parent_step (fst (snd ex_maps)) (snd (snd ex_maps)))"
  by (rule wf_parent_step_built [of ex_doc "fst ex_maps"]) (simp_all add: ids_of_ex_doc ex_maps_def)

section \<open>Properties of the Ancestor Resolver\<close>

lemma loop_next: "next_current loop_node loop_parents loop_lookup = Some loop_node"
  by (simp add: next_current_def loop_node_def loop_parents_def loop_lookup_def)

lemma loop_not_frame: "\<not> is_frame loop_node"
  by (simp add: is_frame_def loop_node_def)

lemma frame_walk_loop_aux:
  assumes "frame_walk cur pm nl = Some r"
  shows "(cur, pm, nl) \<noteq> (Some loop_node, loop_parents, loop_lookup)"
proof (rule frame_walk.raw_induct
    [where P = "\<lambda>cur pm nl r. (cur, pm, nl) \<noteq> (Some loop_node, loop_parents, loop_lookup)",
     OF _ assms])
  fix walk :: "node option \<Rightarrow> parent_map \<Rightarrow> node_lookup \<Rightarrow> node option option"
  fix cur pm nl r
  assume IH: "\<And>c p l y. walk c p l = Some y
                \<Longrightarrow> (c, p, l) \<noteq> (Some loop_node, loop_parents, loop_lookup)"
    and body: "(case cur of None \<Rightarrow> Some None
                | Some c \<Rightarrow> if is_frame c then Some (Some c)
                            else walk (next_current c pm nl) pm nl) = Some r"
  show "(cur, pm, nl) \<noteq> (Some loop_node, loop_parents, loop_lookup)"
  proof
    assume "(cur, pm, nl) = (Some loop_node, loop_parents, loop_lookup)"
    with body have "walk (Some loop_node) loop_parents loop_lookup = Some r"
      by (simp add: loop_next loop_not_frame)
    from IH [OF this] show False by simp
  qed
qed

lemma cycle_diverges:
  "find_frame_ancestor loop_node loop_parents loop_lookup = None"
proof (cases "find_frame_ancestor loop_node loop_parents loop_lookup")
  case None then show ?thesis .
next
  case (Some r)
  then show ?thesis using frame_walk_loop_aux [of "Some loop_node" loop_parents loop_lookup r]
    by (simp add: find_frame_ancestor_def)
qed

lemma frame_walk_total:
  assumes "wf (parent_step pm nl)"
  shows "\<exists>r. frame_walk (Some n) pm nl = Some r"
  using assms
proof (induction n rule: wf_induct_rule)
  case (less n)
  show ?case
  proof (cases "is_frame n")
    case True
    then show ?thesis by (subst frame_walk.simps) simp
  next
    case nf: False
    show ?thesis
    proof (cases "next_current n pm nl")
      case None
      with nf show ?thesis by (subst frame_walk.simps) (simp add: frame_walk.simps [of None])
    next
      case (Some n')
      with nf have "(n', n) \<in> parent_step pm nl" by (simp add: parent_step_def)
      from less.IH [OF this] less.prems obtain r where "frame_walk (Some n') pm nl = Some r" by blast
      with nf Some show ?thesis by (subst frame_walk.simps) simp
    qed
  qed
qed

lemma ex_maps_lookup:
  "fst (snd ex_maps) ''1:2'' = Some (Some ''1:1'')" "snd (snd ex_maps) ''1:1'' = Some ex_screen"
  "fst (snd ex_maps) ''1:3'' = Some (Some ''1:1'')"
  by (simp_all add: ex_maps_def ex_nodes_defs)

lemma ex_button_frame:
  "find_frame_ancestor ex_button (fst (snd ex_maps)) (snd (snd ex_maps)) = Some (Some ex_screen)"
proof -
  have 1: "\<not> is_frame ex_button" "is_frame ex_screen"
    by (simp_all add: is_frame_def ex_nodes_defs)
  have 2: "next_current ex_button (fst (snd ex_maps)) (snd (snd ex_maps)) = Some ex_screen"
    by (simp add: next_current_def ex_button_def ex_maps_lookup)
  show ?thesis
    unfolding find_frame_ancestor_def
    by (subst frame_walk.simps, simp add: 1 2, subst frame_walk.simps, simp add: 1)
qed

lemma frame_walk_closed_diverges:
  assumes closed: "\<forall>m\<in>S. \<not> is_frame m \<and> (\<exists>m'\<in>S. next_current m pm nl = Some m')"
    and ret: "frame_walk cur pm' nl' = Some r"
  shows "\<not> (pm' = pm \<and> nl' = nl \<and> (\<exists>m\<in>S. cur = Some m))"
proof (rule frame_walk.raw_induct
    [where P = "\<lambda>cur pm' nl' r. \<not> (pm' = pm \<and> nl' = nl \<and> (\<exists>m\<in>S. cur = Some m))",
     OF _ ret])
  fix walk :: "node option \<Rightarrow> parent_map \<Rightarrow> node_lookup \<Rightarrow> node option option"
  fix cur pm' nl' r
  assume IH: "\<And>c p l y. walk c p l = Some y
                \<Longrightarrow> \<not> (p = pm \<and> l = nl \<and> (\<exists>m\<in>S. c = Some m))"
    and body: "(case cur of None \<Rightarrow> Some None
                | Some c \<Rightarrow> if is_frame c then Some (Some c)
                            else walk (next_current c pm' nl') pm' nl') = Some r"
  show "\<not> (pm' = pm \<and> nl' = nl \<and> (\<exists>m\<in>S. cur = Some m))"
  proof
    assume a: "pm' = pm \<and> nl' = nl \<and> (\<exists>m\<in>S. cur = Some m)"
    then obtain m where m: "m \<in> S" "cur = Some m" by blast
    with closed obtain m' where m': "m' \<in> S" "next_current m pm nl = Some m'" "\<not> is_frame m"
      by blast
    with body a m have "walk (Some m') pm nl = Some r" by simp
    from IH [OF this] m'(1) show False by blast
  qed
qed

lemma closed_cycle_diverges:
  assumes "\<forall>m\<in>S. \<not> is_frame m \<and> (\<exists>m'\<in>S. next_current m pm nl = Some m')" and "n \<in> S"
  shows "find_frame_ancestor n pm nl = None"
proof (cases "find_frame_ancestor n pm nl")
  case None
  then show ?thesis .
next
  case (Some r)
  then have "frame_walk (Some n) pm nl = Some r" by (simp add: find_frame_ancestor_def)
  from frame_walk_closed_diverges [OF assms(1) this] assms(2) show ?thesis by blast
qed

lemma frame_walk_found:
  assumes "frame_walk cur pm nl = Some r"
  shows "\<forall>f. r = Some f \<longrightarrow> is_frame f \<and> (cur = Some f \<or> (\<exists>p. nl p = Some f))"
proof (rule frame_walk.raw_induct
    [where P = "\<lambda>cur pm nl r. \<forall>f. r = Some f \<longrightarrow> is_frame f \<and> (cur = Some f \<or> (\<exists>p. nl p = Some f))",
     OF _ assms])
  fix walk :: "node option \<Rightarrow> parent_map \<Rightarrow> node_lookup \<Rightarrow> node option option"
  fix cur pm nl r
  assume IH: "\<And>c p l y. walk c p l = Some y
      \<Longrightarrow> \<forall>f. y = Some f \<longrightarrow> is_frame f \<and> (c = Some f \<or> (\<exists>q. l q = Some f))"
    and body: "(case cur of None \<Rightarrow> Some None
                | Some c \<Rightarrow> if is_frame c then Some (Some c)
                            else walk (next_current c pm nl) pm nl) = Some r"
  show "\<forall>f. r = Some f \<longrightarrow> is_frame f \<and> (cur = Some f \<or> (\<exists>p. nl p = Some f))"
  proof (cases cur)
    case None
    with body show ?thesis by auto
  next
    case (Some c)
    show ?thesis
    proof (cases "is_frame c")
      case True
      with Some body show ?thesis by auto
    next
      case False
      with Some body have w: "walk (next_current c pm nl) pm nl = Some r" by simp
      have "\<exists>p. nl p = Some f" if "next_current c pm nl = Some f" for f
        using that by (rule next_current_SomeD) blast
      with IH [OF w] show ?thesis by blast
    qed
  qed
qed

lemma found_frame:
  "find_frame_ancestor n pm nl = Some (Some f) \<Longrightarrow>
     is_frame f \<and> (f = n \<or> (\<exists>p. nl p = Some f))"
  using frame_walk_found [of "Some n" pm nl "Some f"]
  by (auto simp: find_frame_ancestor_def)

lemma found_frame_has_box:
  "find_frame_ancestor n pm nl = Some (Some f) \<Longrightarrow> \<exists>s. absoluteBoundingBox f = Some s"
  using found_frame [of n pm nl f] by (auto simp: is_frame_def)

lemma finite_parent_links:
  assumes "finite (dom pm)"
  shows "finite (parent_links pm nl)"
proof -
  have "parent_links pm nl
      \<subseteq> (\<lambda>i. (the (n_id (the (nl (the (the (pm i)))))), i)) ` dom pm"
    by (force simp: parent_links_def)
  with assms show ?thesis by (meson finite_imageI finite_subset)
qed

lemma frame_walk_no_id:
  assumes "n_id n = None"
  shows "\<exists>r. frame_walk (Some n) pm nl = Some r"
proof (cases "is_frame n")
  case True
  then show ?thesis by (subst frame_walk.simps) simp
next
  case False
  moreover have "next_current n pm nl = None" using assms by (simp add: next_current_def)
  ultimately show ?thesis by (subst frame_walk.simps) (simp add: frame_walk.simps [of None])
qed

lemma frame_walk_total_id:
  assumes "wf (parent_links pm nl)"
  shows "n_id n = Some i \<Longrightarrow> \<exists>r. frame_walk (Some n) pm nl = Some r"
  using assms
proof (induction i arbitrary: n rule: wf_induct_rule)
  case (less i)
  show ?case
  proof (cases "is_frame n")
    case True
    then show ?thesis by (subst frame_walk.simps) simp
  next
    case nf: False
    show ?thesis
    proof (cases "next_current n pm nl")
      case None
      with nf show ?thesis by (subst frame_walk.simps) (simp add: frame_walk.simps [of None])
    next
      case (Some n')
      then obtain i' p where s: "n_id n = Some i'" "pm i' = Some (Some p)" "p \<noteq> []"
        "nl p = Some n'" by (rule next_current_SomeD)
      have "\<exists>r. frame_walk (Some n') pm nl = Some r"
      proof (cases "n_id n'")
        case None
        then show ?thesis by (rule frame_walk_no_id)
      next
        case (Some j)
        with s less.prems(1) have "(j, i) \<in> parent_links pm nl"
          by (auto simp: parent_links_def)
        from less.IH [OF this Some] show ?thesis .
      qed
      with nf Some show ?thesis by (subst frame_walk.simps) simp
    qed
  qed
qed

lemma frame_walk_total_links:
  assumes "finite (dom pm)" and "acyclic (parent_links pm nl)"
  shows "\<exists>r. frame_walk (Some n) pm nl = Some r"
proof -
  have "wf (parent_links pm nl)"
    using finite_parent_links [OF assms(1)] assms(2) by (rule finite_acyclic_wf)
  then show ?thesis
    using frame_walk_total_id [of pm nl n] frame_walk_no_id [of n pm nl]
    by (cases "n_id n") blast+
qed

lemma ex_built:
  "distinct (ids_of ex_doc)"
  "build_node_maps ex_doc (Map.empty, Map.empty, Map.empty) None
     = (fst ex_maps, fst (snd ex_maps), snd (snd ex_maps))"
  by (simp_all add: ids_of_ex_doc ex_maps_def)

lemma ex_maps_acyclic:
  "finite (dom (fst (snd ex_maps)))"
  "acyclic (parent_links (fst (snd ex_maps)) (snd (snd ex_maps)))"
proof -
  show "finite (dom (fst (snd ex_maps)))" by (simp add: ex_maps_def ex_nodes_defs)
  define rank :: "string \<Rightarrow> nat" where
    "rank i = (if i = ''0:0'' then 0 else if i = ''1:1'' then 1 else 2)" for i
  have "parent_links (fst (snd ex_maps)) (snd (snd ex_maps)) \<subseteq> measure rank"
    by (auto simp: parent_links_def ex_maps_def ex_nodes_defs rank_def split: if_splits)
  then have "wf (parent_links (fst (snd ex_maps)) (snd (snd ex_maps)))"
    by (rule wf_subset [OF wf_measure])
  then show "acyclic (parent_links (fst (snd ex_maps)) (snd (snd ex_maps)))"
    by (rule wf_acyclic)
qed

text \<open>
  Claim C2 (as amended). The ancestor walk returns whenever the parent links between the
  ids are acyclic (the maps being finite, as every Python dict is), and whenever the maps
  are the index maps of a tree whose non-empty ids are pairwise distinct. The loop has no
  step bound and no visited set: started in a set of nodes, none of them a FRAME with a
  bounding box, in which the parent link of every node leads to a node of the set again
  (a parent cycle without a screen), the walk never returns.
\<close>

theorem find_frame_ancestor_terminates_acyclic:
  "((finite (dom parent_map) \<and> acyclic (parent_links parent_map node_lookup))
      \<or> (\<exists>tree name_map. distinct (ids_of tree)
            \<and> build_node_maps tree (Map.empty, Map.empty, Map.empty) None
                = (name_map, parent_map, node_lookup))
     \<longrightarrow> (\<exists>r. find_frame_ancestor node parent_map node_lookup = Some r))
   \<and> (node \<in> S
       \<and> (\<forall>m\<in>S. \<not> is_frame m \<and> (\<exists>m'\<in>S. next_current m parent_map node_lookup = Some m'))
     \<longrightarrow> find_frame_ancestor node parent_map node_lookup = None)"
proof -
  have 1: "\<exists>r. find_frame_ancestor node parent_map node_lookup = Some r"
    if "finite (dom parent_map)" "acyclic (parent_links parent_map node_lookup)"
    using frame_walk_total_links [OF that, of node] by (simp add: find_frame_ancestor_def)
  have 2: "\<exists>r. find_frame_ancestor node parent_map node_lookup = Some r"
    if "distinct (ids_of tree)"
      "build_node_maps tree (Map.empty, Map.empty, Map.empty) None
         = (name_map, parent_map, node_lookup)" for tree name_map
    using frame_walk_total [OF wf_parent_step_built [OF that], of node]
    by (simp add: find_frame_ancestor_def)
  have 3: "find_frame_ancestor node parent_map node_lookup = None"
    if "node \<in> S"
      "\<forall>m\<in>S. \<not> is_frame m \<and> (\<exists>m'\<in>S. next_current m parent_map node_lookup = Some m')"
    using that(2,1) by (rule closed_cycle_diverges)
  from 1 2 3 show ?thesis by blast
qed

theorem find_frame_ancestor_terminates_acyclic_witness:
  "finite (dom (fst (snd ex_maps)))
   \<and> acyclic (parent_links (fst (snd ex_maps)) (snd (snd ex_maps)))
   \<and> distinct (ids_of ex_doc)
   \<and> build_node_maps ex_doc (Map.empty, Map.empty, Map.empty) None
       = (fst ex_maps, fst (snd ex_maps), snd (snd ex_maps))
   \<and> find_frame_ancestor ex_button (fst (snd ex_maps)) (snd (snd ex_maps)) = Some (Some ex_screen)
   \<and> loop_node \<in> {loop_node}
   \<and> \<not> is_frame loop_node
   \<and> next_current loop_node loop_parents loop_lookup = Some loop_node
   \<and> find_frame_ancestor loop_node loop_parents loop_lookup = None"
proof -
  have "find_frame_ancestor loop_node loop_parents loop_lookup = None"
    using find_frame_ancestor_terminates_acyclic
      [of loop_parents loop_lookup loop_node "{loop_node}"] loop_next loop_not_frame
    by simp
  moreover have "\<exists>r. find_frame_ancestor ex_button (fst (snd ex_maps)) (snd (snd ex_maps)) = Some r"
    using find_frame_ancestor_terminates_acyclic
      [of "fst (snd ex_maps)" "snd (snd ex_maps)" ex_button "{}"] ex_maps_acyclic
    by simp
  ultimately show ?thesis
    using ex_maps_acyclic ex_built ex_button_frame loop_next loop_not_frame by simp
qed

text \<open>
  The index maps of \<open>loop_doc\<close>, whose child repeats the id of its parent, encode a parent
  cycle on which the walk never returns.
\<close>

theorem find_frame_ancestor_cycle_counterexample:
  "snd (build_node_maps loop_doc (Map.empty, Map.empty, Map.empty) None) = (loop_parents, loop_lookup)
   \<and> find_frame_ancestor loop_node loop_parents loop_lookup = None"
  using cycle_diverges
  by (simp add: loop_doc_def loop_node_def loop_parents_def loop_lookup_def)

section \<open>Properties of the floating-point arithmetic\<close>

lemma pow2_powi: "pow2 k = 2 powi k"
proof (cases "0 \<le> k")
  case True
  then show ?thesis by (simp add: pow2_def power_int_def)
next
  case False
  then have "pow2 k = 1 / 2 ^ nat (- k)" by (simp add: pow2_def)
  also have "\<dots> = inverse 2 ^ nat (- k)" by (metis inverse_eq_divide power_one_over)
  finally show ?thesis using False by (simp add: power_int_def)
qed

lemma pow2_pos: "0 < pow2 k"
  by (simp add: pow2_powi)

lemma pow2_mono: "k \<le> l \<Longrightarrow> pow2 k \<le> pow2 l"
  by (simp add: pow2_powi power_int_increasing)

lemma round_half_even_near: "\<bar>of_int (round_half_even q) - q\<bar> \<le> 1 / 2"
proof -
  define f where "f = \<lfloor>q\<rfloor>"
  define r where "r = q - of_int f"
  have fr: "0 \<le> r" "r < 1" unfolding r_def f_def by linarith+
  have q: "q = of_int f + r" by (simp add: r_def)
  have rhe: "round_half_even q
      = (if r < 1 / 2 then f else if 1 / 2 < r then f + 1 else if even f then f else f + 1)"
    by (simp only: round_half_even_def Let_def f_def r_def)
  consider "r < 1 / 2" | "1 / 2 < r" | "r = 1 / 2" by linarith
  then show ?thesis
  proof cases
    case 1
    then have "round_half_even q = f" by (simp only: rhe if_True)
    with 1 fr show ?thesis unfolding q by simp
  next
    case 2
    then have "round_half_even q = f + 1" by (simp add: rhe)
    with 2 fr show ?thesis unfolding q by simp
  next
    case 3
    then have "round_half_even q = f \<or> round_half_even q = f + 1" by (simp add: rhe)
    with 3 show ?thesis unfolding q by auto
  qed
qed

lemma floor_log2_le:
  assumes "0 < q"
  shows "pow2 (floor_log2 q) \<le> q"
proof -
  obtain a b where ab: "quotient_of q = (a, b)" by (cases "quotient_of q") auto
  then have b: "0 < b" and q: "q = of_int a / of_int b"
    by (simp_all add: quotient_of_denom_pos quotient_of_div)
  with assms have a: "0 < a" by (simp add: zero_less_divide_iff)
  let ?d = "bitlen a - bitlen b"
  show ?thesis
  proof (cases "pow2 ?d \<le> q")
    case True
    then show ?thesis by (simp add: floor_log2_def ab Let_def)
  next
    case False
    have 1: "(2::rat) ^ nat (bitlen a - 1) \<le> of_int a"
      using bitlen_bounds [OF a] by (metis of_int_le_iff of_int_numeral of_int_power)
    have 2: "of_int b < (2::rat) ^ nat (bitlen b)"
      using bitlen_bounds [OF b] by (metis of_int_less_iff of_int_numeral of_int_power)
    have ba: "1 \<le> bitlen a" "0 \<le> bitlen b"
      using a by (auto simp: bitlen_alt_def bitlen_nonneg)
    have "?d - 1 = (bitlen a - 1) - bitlen b" by simp
    then have "pow2 (?d - 1) = 2 powi ((bitlen a - 1) - bitlen b)" by (simp only: pow2_powi)
    also have "\<dots> = 2 powi (bitlen a - 1) / 2 powi (bitlen b)"
      by (rule power_int_diff) simp
    also have "\<dots> = (2::rat) ^ nat (bitlen a - 1) / 2 ^ nat (bitlen b)"
      using ba by (simp add: power_int_def)
    also have "\<dots> \<le> of_int a / of_int b"
      using 1 2 a b by (intro frac_le) auto
    finally have "pow2 (?d - 1) \<le> q" by (simp only: q)
    moreover have "floor_log2 q = ?d - 1" using False by (simp add: floor_log2_def ab Let_def)
    ultimately show ?thesis by simp
  qed
qed

lemma fl_bound: "\<bar>fl q\<bar> \<le> 2 * \<bar>q\<bar> + 1"
proof (cases "q = 0")
  case True
  then show ?thesis by (simp add: fl_def)
next
  case False
  define e where "e = max (floor_log2 \<bar>q\<bar>) (- 1022)"
  define ulp where "ulp = pow2 (e - 52)"
  have flq: "fl q = of_int (round_half_even (q / ulp)) * ulp"
    using False by (simp add: fl_def Let_def e_def ulp_def)
  have up: "0 < ulp" by (simp add: ulp_def pow2_pos)
  have "pow2 (floor_log2 \<bar>q\<bar>) \<le> \<bar>q\<bar>" using False by (intro floor_log2_le) simp
  moreover have "pow2 (- 1022) \<le> 1" by (simp add: pow2_def)
  ultimately have "pow2 e \<le> \<bar>q\<bar> + 1" by (auto simp: e_def max_def)
  moreover have "ulp \<le> pow2 e" unfolding ulp_def by (rule pow2_mono) simp
  ultimately have ule: "ulp \<le> \<bar>q\<bar> + 1" by linarith
  have "\<bar>of_int (round_half_even (q / ulp))\<bar> \<le> \<bar>q / ulp\<bar> + 1 / 2"
    using round_half_even_near [of "q / ulp"] by linarith
  then have "\<bar>of_int (round_half_even (q / ulp))\<bar> * ulp \<le> (\<bar>q / ulp\<bar> + 1 / 2) * ulp"
    using up by (intro mult_right_mono) auto
  also have "\<dots> = \<bar>q\<bar> + ulp / 2" using up by (simp add: algebra_simps abs_divide)
  finally have "\<bar>fl q\<bar> \<le> \<bar>q\<bar> + ulp / 2" using up by (simp add: flq abs_mult)
  with ule show ?thesis by linarith
qed

lemma not_overflows: "\<bar>q\<bar> \<le> 2 ^ 1020 \<Longrightarrow> \<not> overflows q"
proof -
  assume "\<bar>q\<bar> \<le> 2 ^ 1020"
  then have "\<bar>fl q\<bar> \<le> 2 * 2 ^ 1020 + 1" using fl_bound [of q] by linarith
  also have "\<dots> < (2::rat) ^ 1024" by simp
  finally show ?thesis by (simp add: overflows_def)
qed

lemma big_powers:
  "(1::rat) \<le> 2 ^ 1000" "(2::rat) ^ 1004 = 16 * 2 ^ 1000" "(2::rat) ^ 1020 = 1048576 * 2 ^ 1000"
proof -
  show "(1::rat) \<le> 2 ^ 1000" by (rule one_le_power) simp
  have "(2::rat) ^ 1004 = 2 ^ 4 * 2 ^ 1000" by (simp add: power_add [symmetric])
  then show "(2::rat) ^ 1004 = 16 * 2 ^ 1000" by simp
  have "(2::rat) ^ 1020 = 2 ^ 20 * 2 ^ 1000" by (simp add: power_add [symmetric])
  then show "(2::rat) ^ 1020 = 1048576 * 2 ^ 1000" by simp
qed

lemma to_float_bounded:
  assumes "\<bar>v\<bar> \<le> 2 ^ 1020"
  shows "to_float v = Inr (fl v)"
  using not_overflows [OF assms] by (simp add: to_float_def)

lemma plus_half_value:
  assumes "\<bar>v\<bar> \<le> 2 ^ 1020" and "\<bar>s / 2\<bar> \<le> 2 ^ 1020"
    and "\<bar>fl v + fl (s / 2)\<bar> \<le> 2 ^ 1020"
  shows "plus_half v s = Inr (Fin (fl (fl v + fl (s / 2))))"
  using to_float_bounded [OF assms(1)] to_float_bounded [OF assms(2)] not_overflows [OF assms(3)]
  by (simp add: plus_half_def true_div2_def float_add_def)

lemma minus_origin_value:
  assumes "\<bar>v\<bar> \<le> 2 ^ 1020" and "\<bar>m - fl v\<bar> \<le> 2 ^ 1020"
  shows "minus_origin (Fin m) v = Inr (Fin (fl (m - fl v)))"
  using to_float_bounded [OF assms(1)] not_overflows [OF assms(2)]
  by (simp add: minus_origin_def float_sub_def)

lemma plus_half_bounded:
  assumes v: "\<bar>v\<bar> \<le> 2 ^ 1000" and s: "\<bar>s\<bar> \<le> 2 ^ 1000"
  shows "\<exists>m. plus_half v s = Inr (Fin m) \<and> \<bar>m\<bar> \<le> 2 ^ 1004"
proof -
  define B :: rat where "B = 2 ^ 1000"
  have B: "1 \<le> B" "(2::rat) ^ 1004 = 16 * B" "(2::rat) ^ 1020 = 1048576 * B"
    "\<bar>v\<bar> \<le> B" "\<bar>s\<bar> \<le> B"
    using big_powers v s by (simp_all add: B_def)
  have "\<bar>s / 2\<bar> \<le> 1048576 * B" using B(1,5) by simp
  then have "\<bar>s / 2\<bar> \<le> 2 ^ 1020" by (simp only: B(3))
  then have h: "true_div2 s = Inr (fl (s / 2))"
    unfolding true_div2_def by (rule to_float_bounded)
  have hb: "\<bar>fl (s / 2)\<bar> \<le> B + 1" using fl_bound [of "s / 2"] B by simp
  have "\<bar>v\<bar> \<le> 1048576 * B" using B(1,4) by linarith
  then have "\<bar>v\<bar> \<le> 2 ^ 1020" by (simp only: B(3))
  then have x: "to_float v = Inr (fl v)" by (rule to_float_bounded)
  have xb: "\<bar>fl v\<bar> \<le> 2 * B + 1" using fl_bound [of v] B by linarith
  have "\<bar>fl v + fl (s / 2)\<bar> \<le> \<bar>fl v\<bar> + \<bar>fl (s / 2)\<bar>" by (rule abs_triangle_ineq)
  also have "\<dots> \<le> 3 * B + 2" using hb xb by simp
  finally have sb: "\<bar>fl v + fl (s / 2)\<bar> \<le> 3 * B + 2" .
  note sb
  also have "\<dots> \<le> 1048576 * B" using B(1) by simp
  finally have "\<bar>fl v + fl (s / 2)\<bar> \<le> 1048576 * B" .
  then have "\<bar>fl v + fl (s / 2)\<bar> \<le> 2 ^ 1020" by (simp only: B(3))
  then have no: "\<not> overflows (fl v + fl (s / 2))" by (rule not_overflows)
  have "\<bar>fl (fl v + fl (s / 2))\<bar> \<le> 2 * \<bar>fl v + fl (s / 2)\<bar> + 1" by (rule fl_bound)
  also have "\<dots> \<le> 2 * (3 * B + 2) + 1" using sb by simp
  also have "\<dots> \<le> 16 * B" using B(1) by simp
  finally have "\<bar>fl (fl v + fl (s / 2))\<bar> \<le> 16 * B" .
  then have "\<bar>fl (fl v + fl (s / 2))\<bar> \<le> 2 ^ 1004" by (simp only: B(2))
  with h x no show ?thesis by (simp add: plus_half_def float_add_def)
qed

lemma minus_origin_bounded:
  assumes m: "\<bar>m\<bar> \<le> 2 ^ 1004" and v: "\<bar>v\<bar> \<le> 2 ^ 1000"
  shows "\<exists>t. minus_origin (Fin m) v = Inr (Fin t)"
proof -
  define B :: rat where "B = 2 ^ 1000"
  have B: "1 \<le> B" "(2::rat) ^ 1004 = 16 * B" "(2::rat) ^ 1020 = 1048576 * B" "\<bar>v\<bar> \<le> B"
    using big_powers v by (simp_all add: B_def)
  have mb: "\<bar>m\<bar> \<le> 16 * B" using m by (simp only: B(2))
  have "\<bar>v\<bar> \<le> 1048576 * B" using B(1,4) by linarith
  then have "\<bar>v\<bar> \<le> 2 ^ 1020" by (simp only: B(3))
  then have x: "to_float v = Inr (fl v)" by (rule to_float_bounded)
  have xb: "\<bar>fl v\<bar> \<le> 2 * B + 1" using fl_bound [of v] B by linarith
  have "\<bar>m - fl v\<bar> \<le> \<bar>m\<bar> + \<bar>fl v\<bar>" by (rule abs_triangle_ineq4)
  also have "\<dots> \<le> 18 * B + 1" using mb xb by simp
  also have "\<dots> \<le> 1048576 * B" using B(1) by simp
  finally have "\<bar>m - fl v\<bar> \<le> 1048576 * B" .
  then have "\<bar>m - fl v\<bar> \<le> 2 ^ 1020" by (simp only: B(3))
  then have "\<not> overflows (m - fl v)" by (rule not_overflows)
  with x show ?thesis by (simp add: minus_origin_def float_sub_def)
qed

lemma midpoint_bounded:
  assumes "bounded_box b"
  shows "\<exists>mx my. midpoint b = Inr (Fin mx, Fin my) \<and> \<bar>mx\<bar> \<le> 2 ^ 1004 \<and> \<bar>my\<bar> \<le> 2 ^ 1004"
proof -
  from assms obtain mx where mx: "plus_half (box_x b) (box_width b) = Inr (Fin mx)"
    "\<bar>mx\<bar> \<le> 2 ^ 1004"
    using plus_half_bounded [of "box_x b" "box_width b"] by (auto simp: bounded_box_def)
  from assms obtain my where my: "plus_half (box_y b) (box_height b) = Inr (Fin my)"
    "\<bar>my\<bar> \<le> 2 ^ 1004"
    using plus_half_bounded [of "box_y b" "box_height b"] by (auto simp: bounded_box_def)
  from mx my show ?thesis by (simp add: midpoint_def)
qed

lemma tap_point_bounded:
  assumes "\<bar>mx\<bar> \<le> 2 ^ 1004" "\<bar>my\<bar> \<le> 2 ^ 1004" and "\<And>f. fr = Some f \<Longrightarrow> bounded_node f"
  shows "\<exists>tx ty. tap_point (Fin mx, Fin my) fr = Inr (Fin tx, Fin ty)"
proof (cases fr)
  case None
  then show ?thesis by (simp add: tap_point_def)
next
  case (Some f)
  show ?thesis
  proof (cases "absoluteBoundingBox f")
    case None
    with Some show ?thesis by (simp add: tap_point_def)
  next
    case (Some fb)
    with assms(3) [OF \<open>fr = Some f\<close>] have fb: "\<bar>box_x fb\<bar> \<le> 2 ^ 1000" "\<bar>box_y fb\<bar> \<le> 2 ^ 1000"
      by (simp_all add: bounded_node_def bounded_box_def)
    from minus_origin_bounded [OF assms(1) fb(1)] minus_origin_bounded [OF assms(2) fb(2)]
    obtain tx ty where "minus_origin (Fin mx) (box_x fb) = Inr (Fin tx)"
      "minus_origin (Fin my) (box_y fb) = Inr (Fin ty)" by blast
    with Some \<open>fr = Some f\<close> show ?thesis by (simp add: tap_point_def)
  qed
qed

lemma plus_half_eval:
  assumes "fl v = x" and "fl (s / 2) = h" and "fl (x + h) = m"
    and "\<bar>v\<bar> \<le> 2 ^ 1020" and "\<bar>s / 2\<bar> \<le> 2 ^ 1020" and "\<bar>x + h\<bar> \<le> 2 ^ 1020"
  shows "plus_half v s = Inr (Fin m)"
  using plus_half_value [of v s] assms by simp

lemma minus_origin_eval:
  assumes "fl v = f" and "fl (m - f) = t"
    and "\<bar>v\<bar> \<le> 2 ^ 1020" and "\<bar>m - f\<bar> \<le> 2 ^ 1020"
  shows "minus_origin (Fin m) v = Inr (Fin t)"
  using minus_origin_value [of v m] assms by simp

section \<open>Rounding\<close>

lemma c_round_quarter: "c_round (of_int m + 1 / 4) = m"
proof (cases "0 \<le> (of_int m + 1 / 4 :: rat)")
  case True
  have "\<lfloor>(of_int m + 1 / 4 :: rat) + 1 / 2\<rfloor> = m" by (rule floor_unique) simp_all
  with True show ?thesis by (simp only: c_round_def if_True)
next
  case False
  have "\<lceil>(of_int m + 1 / 4 :: rat) - 1 / 2\<rceil> = m" by (rule ceiling_unique) simp_all
  with False show ?thesis by (simp only: c_round_def if_False)
qed

lemma c_round_three_quarters: "c_round (of_int m + 3 / 4) = m + 1"
proof (cases "0 \<le> (of_int m + 3 / 4 :: rat)")
  case True
  have "\<lfloor>(of_int m + 3 / 4 :: rat) + 1 / 2\<rfloor> = m + 1" by (rule floor_unique) simp_all
  with True show ?thesis by (simp only: c_round_def if_True)
next
  case False
  have "\<lceil>(of_int m + 3 / 4 :: rat) - 1 / 2\<rceil> = m + 1" by (rule ceiling_unique) simp_all
  with False show ?thesis by (simp only: c_round_def if_False)
qed

lemma c_round_half: "c_round (of_int k + 1 / 2) = (if 0 \<le> k then k + 1 else k)"
proof (cases "0 \<le> k")
  case True
  then have "0 \<le> (of_int k + 1 / 2 :: rat)" by simp
  moreover have "\<lfloor>(of_int k + 1 / 2 :: rat) + 1 / 2\<rfloor> = k + 1" by (rule floor_unique) simp_all
  ultimately show ?thesis using True by (simp only: c_round_def if_True)
next
  case False
  then have "k \<le> -1" by simp
  then have "(of_int k :: rat) \<le> -1" by (metis of_int_le_iff of_int_minus of_int_1)
  then have "\<not> 0 \<le> (of_int k + 1 / 2 :: rat)" by simp
  moreover have "\<lceil>(of_int k + 1 / 2 :: rat) - 1 / 2\<rceil> = k" by simp
  ultimately show ?thesis using False by (simp only: c_round_def if_False)
qed

lemma c_round_near: "\<bar>of_int (c_round q) - q\<bar> \<le> 1 / 2"
proof (cases "0 \<le> q")
  case True
  have "of_int \<lfloor>q + 1 / 2\<rfloor> \<le> q + 1 / 2" "q + 1 / 2 < of_int \<lfloor>q + 1 / 2\<rfloor> + 1"
    by linarith+
  then have "\<bar>of_int \<lfloor>q + 1 / 2\<rfloor> - q\<bar> \<le> 1 / 2" by linarith
  with True show ?thesis by (simp only: c_round_def if_True)
next
  case False
  have "q - 1 / 2 \<le> of_int \<lceil>q - 1 / 2\<rceil>" "of_int \<lceil>q - 1 / 2\<rceil> < q - 1 / 2 + 1"
    by linarith+
  then have "\<bar>of_int \<lceil>q - 1 / 2\<rceil> - q\<bar> \<le> 1 / 2" by linarith
  with False show ?thesis by (simp only: c_round_def if_False)
qed

lemma py_round_half: "py_round (of_int k + 1 / 2) = (if even k then k else k + 1)"
proof -
  let ?q = "of_int k + 1 / 2 :: rat"
  have tie: "\<bar>?q - of_int (c_round ?q)\<bar> = 1 / 2"
    by (simp add: c_round_half)
  have "py_round ?q = (if \<bar>?q - of_int (c_round ?q)\<bar> = 1 / 2
                        then 2 * c_round (?q / 2) else c_round ?q)"
    by (simp only: py_round_def Let_def)
  also have "\<dots> = 2 * c_round (?q / 2)" using tie by (rule if_P)
  finally have eq: "py_round ?q = 2 * c_round (?q / 2)" .
  show ?thesis
  proof (cases "even k")
    case True
    then obtain m where k: "k = 2 * m" by (auto elim: evenE)
    have "?q / 2 = of_int m + 1 / 4" by (simp add: k)
    then have "py_round ?q = 2 * m" by (simp only: eq c_round_quarter)
    with True k show ?thesis by simp
  next
    case False
    then obtain m where k: "k = 2 * m + 1" by (auto elim: oddE)
    have "?q / 2 = of_int m + 3 / 4" by (simp add: k)
    then have "py_round ?q = 2 * (m + 1)" by (simp only: eq c_round_three_quarters)
    with False k show ?thesis by simp
  qed
qed

lemma py_round_near: "\<bar>of_int (py_round q) - q\<bar> \<le> 1 / 2"
proof (cases "\<bar>q - of_int (c_round q)\<bar> = 1 / 2")
  case False
  have "py_round q = (if \<bar>q - of_int (c_round q)\<bar> = 1 / 2
                        then 2 * c_round (q / 2) else c_round q)"
    by (simp only: py_round_def Let_def)
  also have "\<dots> = c_round q" using False by (rule if_not_P)
  finally have "py_round q = c_round q" .
  then show ?thesis using c_round_near [of q] by simp
next
  case True
  then have "q = of_int (c_round q) + 1 / 2 \<or> q = of_int (c_round q - 1) + 1 / 2"
    by (auto simp: abs_if split: if_splits) 
  then obtain k where q: "q = of_int k + 1 / 2" by blast
  show ?thesis unfolding q py_round_half by simp
qed

lemma py_round_of_int: "py_round (of_int k) = k"
proof -
  have "c_round (of_int k) = k" unfolding c_round_def
    by (auto intro!: floor_unique ceiling_unique)
  then show ?thesis by (simp add: py_round_def Let_def)
qed

lemma py_round_numeral: "py_round (numeral w) = numeral w"
  using py_round_of_int [of "numeral w"] by simp

lemma py_round_examples:
  "py_round (1 / 2) = 0" "py_round (3 / 2) = 2" "py_round (5 / 2) = 2" "py_round (221 / 2) = 110"
  using py_round_half [of 0] py_round_half [of 1] py_round_half [of 2] py_round_half [of 110]
  by simp_all

lemma c_round_examples: "c_round (1 / 2) = 1" "c_round (3 / 2) = 2" "c_round (5 / 2) = 3"
  using c_round_half [of 0] c_round_half [of 1] c_round_half [of 2] by simp_all

section \<open>Properties of the Clickable Extractor\<close>

lemma run_nodes_append:
  "run_nodes f (xs @ ys) acc =
     (case run_nodes f xs acc of
        None \<Rightarrow> None
      | Some (Inl e) \<Rightarrow> Some (Inl e)
      | Some (Inr acc') \<Rightarrow> run_nodes f ys acc')"
  by (induction xs arbitrary: acc) (auto split: option.splits sum.splits)

lemma extract_children_eq:
  assumes "\<And>c acc. c \<in> set cs \<Longrightarrow>
     extract_clickables c pm nl acc = run_nodes (node_part pm nl) (nodes_of c) acc"
  shows "extract_children cs pm nl acc
       = run_nodes (node_part pm nl) (concat (map nodes_of cs)) acc"
  using assms
proof (induction cs arbitrary: acc)
  case Nil
  show ?case by simp
next
  case (Cons c cs)
  have "extract_children cs pm nl acc'
       = run_nodes (node_part pm nl) (concat (map nodes_of cs)) acc'" for acc'
    by (rule Cons.IH) (simp add: Cons.prems)
  then show ?case
    using Cons.prems [of c acc]
    by (simp add: run_nodes_append split: option.splits sum.splits)
qed

lemma extract_clickables_eq:
  "extract_clickables t pm nl acc = run_nodes (node_part pm nl) (nodes_of t) acc"
proof (induction t arbitrary: acc)
  case (Node i nm ty bb cs pis tr)
  have "extract_children cs pm nl acc
       = run_nodes (node_part pm nl) (concat (map nodes_of cs)) acc"
    by (rule extract_children_eq) (rule Node.IH)
  then show ?case
    by (simp add: run_nodes_append split: option.splits sum.splits)
qed

lemma run_nodes_member:
  "run_nodes f ns acc = Some (Inr out) \<Longrightarrow> n \<in> set ns \<Longrightarrow>
     \<exists>new. f n = Some (Inr new) \<and> set new \<subseteq> set out"
proof (induction ns arbitrary: acc)
  case Nil
  then show ?case by simp
next
  case (Cons m ns)
  from Cons.prems(1) obtain new where m: "f m = Some (Inr new)"
    and rest: "run_nodes f ns (acc @ new) = Some (Inr out)"
    by (auto split: option.splits sum.splits)
  have pre: "set (acc @ new) \<subseteq> set out"
    using rest
  proof (induction ns arbitrary: acc new)
    case Nil
    then show ?case by simp
  next
    case (Cons k ks)
    from Cons.prems obtain new' where "run_nodes f ks ((acc @ new) @ new') = Some (Inr out)"
      by (auto split: option.splits sum.splits)
    from Cons.IH [OF this] show ?case by auto
  qed
  show ?case
  proof (cases "n = m")
    case True
    with m pre show ?thesis by auto
  next
    case False
    with Cons.prems(2) have "n \<in> set ns" by simp
    from Cons.IH [OF rest this] show ?thesis .
  qed
qed

lemma run_nodes_length:
  assumes "\<And>n new. f n = Some (Inr new) \<Longrightarrow> length new = g n"
  shows "run_nodes f ns acc = Some (Inr out) \<Longrightarrow>
     length out = length acc + sum_list (map g ns) \<and> take (length acc) out = acc"
proof (induction ns arbitrary: acc)
  case Nil
  then show ?case by simp
next
  case (Cons m ns)
  from Cons.prems obtain new where m: "f m = Some (Inr new)"
    and rest: "run_nodes f ns (acc @ new) = Some (Inr out)"
    by (auto split: option.splits sum.splits)
  from Cons.IH [OF rest] assms [OF m]
  have "length out = length acc + g m + sum_list (map g ns)"
    and t: "take (length acc + g m) out = acc @ new" by simp_all
  moreover from t have "take (length acc) out = acc"
    by (metis append_eq_conv_conj append_take_drop_id take_take)
  ultimately show ?case by simp
qed


lemma run_nodes_returns_list:
  "(\<And>n. n \<in> set ns \<Longrightarrow> \<exists>new. f n = Some (Inr new)) \<Longrightarrow>
     \<exists>new. run_nodes f ns acc = Some (Inr (acc @ new))"
proof (induction ns arbitrary: acc)
  case Nil
  show ?case by simp
next
  case (Cons m ns)
  from Cons.prems obtain new where m: "f m = Some (Inr new)" by auto
  from Cons.IH [of "acc @ new"] Cons.prems
  obtain new' where "run_nodes f ns (acc @ new) = Some (Inr ((acc @ new) @ new'))" by auto
  with m show ?case by auto
qed

lemma length_interaction_records:
  "interaction_records n b fr tp pis = Inr cs \<Longrightarrow>
     length cs = length (filter (\<lambda>i. truthy (target i)) pis)"
proof (induction pis arbitrary: cs)
  case Nil
  then show ?case by simp
next
  case (Cons i pis)
  show ?case
  proof (cases "truthy (target i)")
    case False
    then have "interaction_records n b fr tp (i # pis) = interaction_records n b fr tp pis"
      by (auto simp: truthy_def split: option.splits)
    with Cons False show ?thesis by simp
  next
    case True
    then obtain t where t: "target i = Some t" "t \<noteq> []"
      by (auto simp: truthy_def split: option.splits)
    with Cons.prems obtain c cs' where "interaction_records n b fr tp pis = Inr cs'"
      and "cs = c # cs'"
      by (auto split: sum.splits)
    with Cons.IH True show ?thesis by simp
  qed
qed

lemma length_node_clickables:
  "has_link n \<Longrightarrow> node_clickables n b fr tp = Inr new \<Longrightarrow> length new = spec_contribution n"
  by (auto simp: node_clickables_def spec_contribution_def has_link_def
      length_interaction_records split: option.splits sum.splits)

lemma length_node_part:
  "node_part pm nl n = Some (Inr new) \<Longrightarrow>
     length new = (if qualifying n then spec_contribution n else 0)"
  by (auto simp: node_part_def qualifying_def length_node_clickables
      split: option.splits sum.splits if_splits)




lemma new_clickable_Fin: "\<exists>c. new_clickable n b fr (Fin tx, Fin ty) t k = Inr c"
  by (simp add: new_clickable_def round_float_def)

lemma interaction_records_Fin: "\<exists>cs. interaction_records n b fr (Fin tx, Fin ty) ds = Inr cs"
proof (induction ds)
  case Nil
  show ?case by simp
next
  case (Cons d ds)
  then obtain cs where cs: "interaction_records n b fr (Fin tx, Fin ty) ds = Inr cs" by blast
  show ?case
  proof (cases "target d")
    case None
    with cs show ?thesis by simp
  next
    case (Some t)
    obtain c where "new_clickable n b fr (Fin tx, Fin ty) t
        (case itype d of None \<Rightarrow> ''ON_CLICK'' | Some k \<Rightarrow> k) = Inr c"
      using new_clickable_Fin by blast
    with Some cs show ?thesis by simp
  qed
qed

lemma node_clickables_Fin: "\<exists>cs. node_clickables n b fr (Fin tx, Fin ty) = Inr cs"
proof (cases "prototypeInteractions n")
  case (Some ds)
  then show ?thesis using interaction_records_Fin [of n b fr tx ty ds]
    by (simp add: node_clickables_def)
next
  case None
  show ?thesis
  proof (cases "transitionNodeID n")
    case None
    with \<open>prototypeInteractions n = None\<close> show ?thesis by (simp add: node_clickables_def)
  next
    case (Some t)
    obtain c where "new_clickable n b fr (Fin tx, Fin ty) t ''ON_CLICK'' = Inr c"
      using new_clickable_Fin by blast
    with Some \<open>prototypeInteractions n = None\<close> show ?thesis by (simp add: node_clickables_def)
  qed
qed

lemma node_part_returns_list:
  assumes d: "distinct (ids_of t)"
    and built: "build_node_maps t (Map.empty, Map.empty, Map.empty) None = (nm, pm, nl)"
    and bounded: "\<forall>m\<in>set (nodes_of t). bounded_node m"
    and n: "n \<in> set (nodes_of t)"
  shows "\<exists>new. node_part pm nl n = Some (Inr new)"
proof (cases "qualifying n")
  case False
  then show ?thesis by (auto simp: node_part_def qualifying_def split: option.splits)
next
  case True
  then obtain b where b: "absoluteBoundingBox n = Some b" and hl: "has_link n"
    by (auto simp: qualifying_def)
  from bounded n b have "bounded_box b" by (auto simp: bounded_node_def)
  from midpoint_bounded [OF this] obtain mx my where
    mid: "midpoint b = Inr (Fin mx, Fin my)" "\<bar>mx\<bar> \<le> 2 ^ 1004" "\<bar>my\<bar> \<le> 2 ^ 1004" by blast
  have "wf (parent_step pm nl)" using d built by (rule wf_parent_step_built)
  from frame_walk_total [OF this, of n] obtain fr where
    fr: "find_frame_ancestor n pm nl = Some fr" by (auto simp: find_frame_ancestor_def)
  have "bounded_node f" if "fr = Some f" for f
  proof -
    from found_frame [of n pm nl f] fr that
    consider "f = n" | p where "nl p = Some f" by blast
    then have "f \<in> set (nodes_of t)"
    proof cases
      case 1
      with n show ?thesis by simp
    next
      case 2
      with build_node_maps_lookup [of t "(Map.empty, Map.empty, Map.empty)" None p f] built
      show ?thesis by simp
    qed
    with bounded show ?thesis by blast
  qed
  from tap_point_bounded [OF mid(2,3) this] obtain tx ty where
    tp: "tap_point (Fin mx, Fin my) fr = Inr (Fin tx, Fin ty)" by blast
  obtain cs where "node_clickables n b fr (Fin tx, Fin ty) = Inr cs"
    using node_clickables_Fin by blast
  with b hl mid(1) fr tp show ?thesis by (simp add: node_part_def)
qed


lemma extract_length:
  assumes "extract_clickables tree pm nl acc = Some (Inr out)"
  shows "length out = length acc + spec_count tree \<and> take (length acc) out = acc"
proof -
  have "run_nodes (node_part pm nl) (nodes_of tree) acc = Some (Inr out)"
    using assms by (simp add: extract_clickables_eq)
  from run_nodes_length [of "node_part pm nl" "\<lambda>n. if qualifying n then spec_contribution n else 0",
      OF length_node_part this]
  have "length out = length acc
          + sum_list (map (\<lambda>n. if qualifying n then spec_contribution n else 0) (nodes_of tree))"
    and t: "take (length acc) out = acc" by simp_all
  moreover have "sum_list (map (\<lambda>n. if qualifying n then spec_contribution n else 0) ns)
      = sum_list (map spec_contribution (filter qualifying ns))" for ns
    by (induction ns) simp_all
  ultimately show ?thesis by (simp add: spec_count_def)
qed


lemma extract_returns_list:
  assumes "distinct (ids_of tree)"
    and "build_node_maps tree (Map.empty, Map.empty, Map.empty) None = (nm, pm, nl)"
    and "list_all bounded_node (nodes_of tree)"
  shows "\<exists>new. extract_clickables tree pm nl acc = Some (Inr (acc @ new))
           \<and> length new = spec_count tree"
proof -
  from assms(3) have b: "\<forall>m\<in>set (nodes_of tree). bounded_node m" by (simp add: list_all_iff)
  have "\<exists>new. node_part pm nl n = Some (Inr new)" if "n \<in> set (nodes_of tree)" for n
    using assms(1,2) b that by (rule node_part_returns_list)
  from run_nodes_returns_list [of "nodes_of tree" "node_part pm nl" acc, OF this]
  obtain new where new: "extract_clickables tree pm nl acc = Some (Inr (acc @ new))"
    by (auto simp: extract_clickables_eq)
  from extract_length [OF this] have "length new = spec_count tree" by simp
  with new show ?thesis by blast
qed




lemma bounded_ex_doc: "list_all bounded_node (nodes_of ex_doc)"
  by (simp add: nodes_of_ex_doc) (simp add: bounded_node_def bounded_box_def ex_nodes_defs)

lemma ex_button_mid:
  "plus_half 110 20 = Inr (Fin 120)" "plus_half 210 20 = Inr (Fin 220)"
  "minus_origin (Fin 120) 100 = Inr (Fin 20)" "minus_origin (Fin 220) 200 = Inr (Fin 20)"
proof -
  show "plus_half 110 20 = Inr (Fin 120)"
    by (rule plus_half_eval [where x = 110 and h = 10]; ((simp; fail) | code_simp))
  show "plus_half 210 20 = Inr (Fin 220)"
    by (rule plus_half_eval [where x = 210 and h = 10]; ((simp; fail) | code_simp))
  show "minus_origin (Fin 120) 100 = Inr (Fin 20)"
    by (rule minus_origin_eval [where f = 100]; ((simp; fail) | code_simp))
  show "minus_origin (Fin 220) 200 = Inr (Fin 20)"
    by (rule minus_origin_eval [where f = 200]; ((simp; fail) | code_simp))
qed

lemma ex_link_mid:
  "plus_half 101 20 = Inr (Fin 111)" "plus_half 300 21 = Inr (Fin (621 / 2))"
  "minus_origin (Fin 111) 100 = Inr (Fin 11)"
  "minus_origin (Fin (621 / 2)) 200 = Inr (Fin (221 / 2))"
proof -
  show "plus_half 101 20 = Inr (Fin 111)"
    by (rule plus_half_eval [where x = 101 and h = 10]; ((simp; fail) | code_simp))
  show "plus_half 300 21 = Inr (Fin (621 / 2))"
    by (rule plus_half_eval [where x = 300 and h = "21 / 2"]; ((simp; fail) | code_simp))
  show "minus_origin (Fin 111) 100 = Inr (Fin 11)"
    by (rule minus_origin_eval [where f = 100]; ((simp; fail) | code_simp))
  show "minus_origin (Fin (621 / 2)) 200 = Inr (Fin (221 / 2))"
    by (rule minus_origin_eval [where f = 200]; ((simp; fail) | code_simp))
qed

lemma ex_link_frame:
  "find_frame_ancestor ex_link (fst (snd ex_maps)) (snd (snd ex_maps)) = Some (Some ex_screen)"
proof -
  have 1: "\<not> is_frame ex_link" "is_frame ex_screen"
    by (simp_all add: is_frame_def ex_nodes_defs)
  have 2: "next_current ex_link (fst (snd ex_maps)) (snd (snd ex_maps)) = Some ex_screen"
    by (simp add: next_current_def ex_link_def ex_maps_lookup)
  show ?thesis
    unfolding find_frame_ancestor_def
    by (subst frame_walk.simps, simp add: 1 2, subst frame_walk.simps, simp add: 1)
qed

lemma ex_screen_box:
  "absoluteBoundingBox ex_screen
     = Some \<lparr> box_x = 100, box_y = 200, box_width = 500, box_height = 800 \<rparr>"
  "n_name ex_screen = Some ''Home''"
  by (simp_all add: ex_screen_def)

lemma ex_button_facts:
  "absoluteBoundingBox ex_button
     = Some \<lparr> box_x = 110, box_y = 210, box_width = 20, box_height = 20 \<rparr>"
  "has_link ex_button"
  by (simp_all add: ex_button_def has_link_def)

lemma ex_link_facts:
  "absoluteBoundingBox ex_link
     = Some \<lparr> box_x = 101, box_y = 300, box_width = 20, box_height = 21 \<rparr>"
  "has_link ex_link"
  by (simp_all add: ex_link_def has_link_def)

lemma ex_button_midpoint:
  "midpoint \<lparr> box_x = 110, box_y = 210, box_width = 20, box_height = 20 \<rparr>
     = Inr (Fin 120, Fin 220)"
  "tap_point (Fin 120, Fin 220) (Some ex_screen) = Inr (Fin 20, Fin 20)"
  by (simp_all add: midpoint_def tap_point_def ex_screen_box ex_button_mid)

lemma ex_link_midpoint:
  "midpoint \<lparr> box_x = 101, box_y = 300, box_width = 20, box_height = 21 \<rparr>
     = Inr (Fin 111, Fin (621 / 2))"
  "tap_point (Fin 111, Fin (621 / 2)) (Some ex_screen) = Inr (Fin 11, Fin (221 / 2))"
  by (simp_all add: midpoint_def tap_point_def ex_screen_box ex_link_mid)

lemma ex_button_clickables:
  "node_clickables ex_button \<lparr> box_x = 110, box_y = 210, box_width = 20, box_height = 20 \<rparr>
     (Some ex_screen) (Fin 20, Fin 20) = Inr [ex_rec_button]"
  by (simp add: node_clickables_def new_clickable_def round_float_def ex_screen_box
      ex_button_def ex_rec_button_def py_round_numeral)

lemma ex_link_clickables:
  "node_clickables ex_link \<lparr> box_x = 101, box_y = 300, box_width = 20, box_height = 21 \<rparr>
     (Some ex_screen) (Fin 11, Fin (221 / 2)) = Inr [ex_rec_link]"
  by (simp add: node_clickables_def new_clickable_def round_float_def ex_screen_box
      ex_link_def ex_rec_link_def py_round_numeral py_round_examples)

lemma ex_extract:
  "extract_clickables ex_doc (fst (snd ex_maps)) (snd (snd ex_maps)) []
     = Some (Inr [ex_rec_button, ex_rec_link])"
proof -
  let ?pm = "fst (snd ex_maps)" and ?nl = "snd (snd ex_maps)"
  have "node_part ?pm ?nl ex_button = Some (Inr [ex_rec_button])"
    by (simp add: node_part_def ex_button_frame ex_button_facts ex_button_midpoint
        ex_button_clickables)
  moreover have "node_part ?pm ?nl ex_link = Some (Inr [ex_rec_link])"
    by (simp add: node_part_def ex_link_frame ex_link_facts ex_link_midpoint
        ex_link_clickables)
  moreover have "node_part ?pm ?nl ex_label = Some (Inr [])"
    "node_part ?pm ?nl ex_screen = Some (Inr [])"
    "node_part ?pm ?nl ex_details = Some (Inr [])" "node_part ?pm ?nl ex_doc = Some (Inr [])"
    by (simp_all add: node_part_def has_link_def ex_nodes_defs)
  ultimately show ?thesis
    by (simp add: extract_clickables_eq nodes_of_ex_doc)
qed

lemma ex_members: "ex_button \<in> set (nodes_of ex_doc)" "ex_link \<in> set (nodes_of ex_doc)"
  by (simp_all add: nodes_of_ex_doc)




section \<open>Tap coordinates\<close>

lemma plus_half_FinD:
  "plus_half v s = Inr (Fin m) \<Longrightarrow> m = fl (fl v + fl (s / 2))"
  by (auto simp: plus_half_def true_div2_def to_float_def float_add_def
      split: if_splits sum.splits)

lemma minus_origin_FinD:
  "minus_origin a v = Inr (Fin t) \<Longrightarrow> \<exists>m. a = Fin m \<and> t = fl (m - fl v)"
  by (auto simp: minus_origin_def to_float_def float_sub_def split: if_splits pyfloat.splits)

lemma midpoint_FinD:
  "midpoint b = Inr (Fin mx, Fin my) \<Longrightarrow>
     mx = fl (fl (box_x b) + fl (box_width b / 2)) \<and> my = fl (fl (box_y b) + fl (box_height b / 2))"
  by (auto simp: midpoint_def dest: plus_half_FinD split: sum.splits)

lemma tap_point_FinD:
  assumes "tap_point mid fr = Inr (Fin tx, Fin ty)"
  shows "\<exists>mx my. mid = (Fin mx, Fin my)
           \<and> (case fr of
                 None \<Rightarrow> tx = mx \<and> ty = my
               | Some f \<Rightarrow>
                   (case absoluteBoundingBox f of
                      None \<Rightarrow> tx = mx \<and> ty = my
                    | Some s \<Rightarrow> tx = fl (mx - fl (box_x s)) \<and> ty = fl (my - fl (box_y s))))"
proof (cases mid)
  case (Pair a c)
  show ?thesis
  proof (cases fr)
    case None
    with assms Pair show ?thesis by (simp add: tap_point_def)
  next
    case (Some f)
    show ?thesis
    proof (cases "absoluteBoundingBox f")
      case None
      with assms Pair Some show ?thesis by (simp add: tap_point_def)
    next
      case (Some s)
      with assms Pair \<open>fr = Some f\<close>
      have "minus_origin a (box_x s) = Inr (Fin tx)" "minus_origin c (box_y s) = Inr (Fin ty)"
        by (auto simp: tap_point_def split: sum.splits)
      then obtain mx my where "a = Fin mx" "tx = fl (mx - fl (box_x s))"
        "c = Fin my" "ty = fl (my - fl (box_y s))"
        using minus_origin_FinD by blast
      with Pair Some \<open>fr = Some f\<close> show ?thesis by simp
    qed
  qed
qed

lemma new_clickable_tap:
  "new_clickable n b fr tp t k = Inr c \<Longrightarrow>
     \<exists>tx ty. tp = (Fin tx, Fin ty) \<and> tap_position c = \<lparr> pos_x = py_round tx, pos_y = py_round ty \<rparr>"
  by (cases tp) (auto simp: new_clickable_def round_float_def split: sum.splits pyfloat.splits)

lemma interaction_records_tap:
  "interaction_records n b fr tp ds = Inr cs \<Longrightarrow> c \<in> set cs \<Longrightarrow>
     \<exists>tx ty. tp = (Fin tx, Fin ty) \<and> tap_position c = \<lparr> pos_x = py_round tx, pos_y = py_round ty \<rparr>"
proof (induction ds arbitrary: cs)
  case Nil
  then show ?case by simp
next
  case (Cons d ds)
  show ?case
  proof (cases "truthy (target d)")
    case False
    with Cons.prems have "interaction_records n b fr tp ds = Inr cs"
      by (auto simp: truthy_def split: option.splits)
    from Cons.IH [OF this Cons.prems(2)] show ?thesis .
  next
    case True
    then obtain t where t: "target d = Some t" "t \<noteq> []"
      by (auto simp: truthy_def split: option.splits)
    with Cons.prems(1) obtain c' cs' where c': "new_clickable n b fr tp t
          (case itype d of None \<Rightarrow> ''ON_CLICK'' | Some k \<Rightarrow> k) = Inr c'"
      and cs': "interaction_records n b fr tp ds = Inr cs'" and cs: "cs = c' # cs'"
      by (auto split: sum.splits)
    from Cons.prems(2) cs consider "c = c'" | "c \<in> set cs'" by auto
    then show ?thesis
    proof cases
      case 1
      with new_clickable_tap [OF c'] show ?thesis by simp
    next
      case 2
      from Cons.IH [OF cs' this] show ?thesis .
    qed
  qed
qed

lemma node_clickables_tap:
  "node_clickables n b fr tp = Inr cs \<Longrightarrow> c \<in> set cs \<Longrightarrow>
     \<exists>tx ty. tp = (Fin tx, Fin ty) \<and> tap_position c = \<lparr> pos_x = py_round tx, pos_y = py_round ty \<rparr>"
  by (auto simp: node_clickables_def dest: interaction_records_tap new_clickable_tap
      split: option.splits sum.splits)

lemma extracted_node:
  assumes "extract_clickables tree pm nl acc = Some (Inr cs)" and "n \<in> set (nodes_of tree)"
    and "absoluteBoundingBox n = Some b" and "has_link n"
  shows "\<exists>fr mid tp new. find_frame_ancestor n pm nl = Some fr \<and> midpoint b = Inr mid
           \<and> tap_point mid fr = Inr tp \<and> node_clickables n b fr tp = Inr new
           \<and> set new \<subseteq> set cs"
proof -
  from assms(1) have "run_nodes (node_part pm nl) (nodes_of tree) acc = Some (Inr cs)"
    by (simp add: extract_clickables_eq)
  from run_nodes_member [OF this assms(2)] obtain new where
    "node_part pm nl n = Some (Inr new)" "set new \<subseteq> set cs" by blast
  with assms(3,4) show ?thesis
    by (auto simp: node_part_def split: option.splits sum.splits)
qed

lemma extraction_of:
  assumes "extract_clickables tree pm nl acc = Some (Inr cs)
         \<or> (distinct (ids_of tree)
              \<and> build_node_maps tree (Map.empty, Map.empty, Map.empty) None = (nm, pm, nl)
              \<and> list_all bounded_node (nodes_of tree))"
  shows "\<exists>out. extract_clickables tree pm nl acc = Some (Inr out)"
  using assms extract_returns_list [of tree nm pm nl acc] by blast

lemma tap_record:
  assumes fr: "find_frame_ancestor n pm nl = Some fr" and mid: "midpoint b = Inr mid"
    and tp: "tap_point mid fr = Inr tp" and new: "node_clickables n b fr tp = Inr new"
    and c: "c \<in> set new"
  shows "\<exists>mx my tx ty.
           mid = (Fin mx, Fin my) \<and> tp = (Fin tx, Fin ty)
         \<and> mx = fl (fl (box_x b) + fl (box_width b / 2))
         \<and> my = fl (fl (box_y b) + fl (box_height b / 2))
         \<and> (case fr of
               None \<Rightarrow> tx = mx \<and> ty = my
             | Some f \<Rightarrow>
                 (\<exists>s. absoluteBoundingBox f = Some s
                    \<and> tx = fl (mx - fl (box_x s)) \<and> ty = fl (my - fl (box_y s))))
         \<and> tap_position c = \<lparr> pos_x = py_round tx, pos_y = py_round ty \<rparr>"
proof -
  from node_clickables_tap [OF new c] obtain tx ty where
    t: "tp = (Fin tx, Fin ty)" "tap_position c = \<lparr> pos_x = py_round tx, pos_y = py_round ty \<rparr>"
    by blast
  from tap_point_FinD [of mid fr tx ty] tp t(1) obtain mx my where
    m: "mid = (Fin mx, Fin my)"
    and cases: "case fr of
                 None \<Rightarrow> tx = mx \<and> ty = my
               | Some f \<Rightarrow>
                   (case absoluteBoundingBox f of
                      None \<Rightarrow> tx = mx \<and> ty = my
                    | Some s \<Rightarrow> tx = fl (mx - fl (box_x s)) \<and> ty = fl (my - fl (box_y s)))"
    by auto
  from midpoint_FinD [of b mx my] mid m
  have mm: "mx = fl (fl (box_x b) + fl (box_width b / 2))"
    "my = fl (fl (box_y b) + fl (box_height b / 2))" by simp_all
  have "case fr of
               None \<Rightarrow> tx = mx \<and> ty = my
             | Some f \<Rightarrow>
                 (\<exists>s. absoluteBoundingBox f = Some s
                    \<and> tx = fl (mx - fl (box_x s)) \<and> ty = fl (my - fl (box_y s)))"
  proof (cases fr)
    case None
    with cases show ?thesis by simp
  next
    case (Some f)
    with fr obtain s where "absoluteBoundingBox f = Some s"
      using found_frame_has_box by blast
    with Some cases show ?thesis by simp
  qed
  with t m mm show ?thesis by blast
qed

lemma screen_with_button_extract:
  assumes "plus_half (box_x bb) (box_width bb) = Inr mx"
    and "plus_half (box_y bb) (box_height bb) = Inr my"
    and "minus_origin mx (box_x sb) = Inr (Fin tx)"
    and "minus_origin my (box_y sb) = Inr (Fin ty)"
  shows "extract_document (screen_with_button sb bb)
       = Some (Inr [button_rec (py_round tx) (py_round ty) (box_y bb)])"
proof -
  let ?doc = "screen_with_button sb bb"
  define pm :: parent_map where "pm = [''3:1'' \<mapsto> None, ''3:2'' \<mapsto> Some ''3:1'']"
  define nl :: node_lookup where "nl = [''3:1'' \<mapsto> ?doc, ''3:2'' \<mapsto> button_at bb]"
  have maps: "snd (build_node_maps ?doc (Map.empty, Map.empty, Map.empty) None) = (pm, nl)"
    by (simp add: screen_with_button_def button_at_def pm_def nl_def)
  have 1: "\<not> is_frame (button_at bb)" "is_frame ?doc"
    by (simp_all add: is_frame_def button_at_def screen_with_button_def)
  have 2: "next_current (button_at bb) pm nl = Some ?doc"
    by (simp add: next_current_def button_at_def pm_def nl_def)
  have fr: "find_frame_ancestor (button_at bb) pm nl = Some (Some ?doc)"
    unfolding find_frame_ancestor_def
    by (subst frame_walk.simps, simp add: 1 2, subst frame_walk.simps, simp add: 1)
  have mid: "midpoint bb = Inr (mx, my)" using assms(1,2) by (simp add: midpoint_def)
  have tp: "tap_point (mx, my) (Some ?doc) = Inr (Fin tx, Fin ty)"
    using assms(3,4) by (simp add: tap_point_def screen_with_button_def)
  have "node_clickables (button_at bb) bb (Some ?doc) (Fin tx, Fin ty)
      = Inr [button_rec (py_round tx) (py_round ty) (box_y bb)]"
    by (simp add: node_clickables_def new_clickable_def round_float_def button_at_def
        screen_with_button_def button_rec_def)
  with fr mid tp have b: "node_part pm nl (button_at bb)
      = Some (Inr [button_rec (py_round tx) (py_round ty) (box_y bb)])"
    by (simp add: node_part_def) (simp add: button_at_def has_link_def)
  have s: "node_part pm nl ?doc = Some (Inr [])"
    by (simp add: node_part_def screen_with_button_def has_link_def)
  have "nodes_of ?doc = [button_at bb, ?doc]"
    by (simp add: screen_with_button_def button_at_def)
  with b s have "extract_clickables ?doc pm nl [] = Some (Inr [button_rec (py_round tx) (py_round ty) (box_y bb)])"
    by (simp add: extract_clickables_eq)
  moreover have "extract_document ?doc = extract_clickables ?doc pm nl []"
    using maps by (simp add: extract_document_def split_def)
  ultimately show ?thesis by simp
qed

lemma tiny_extract:
  "extract_document (screen_with_button tiny_screen_box tiny_button_box)
     = Some (Inr [button_rec 102 200 200])"
proof -
  have 1: "plus_half 100 3 = Inr (Fin (203 / 2))"
    by (rule plus_half_eval [where x = 100 and h = "3 / 2"]; ((simp; fail) | code_simp))
  have 2: "plus_half 200 1 = Inr (Fin (401 / 2))"
    by (rule plus_half_eval [where x = 200 and h = "1 / 2"]; ((simp; fail) | code_simp))
  have 3: "minus_origin (Fin (203 / 2)) (1 / 2 ^ 48) = Inr (Fin (203 / 2))"
    by (rule minus_origin_eval [where f = "1 / 2 ^ 48"]; ((simp; fail) | code_simp))
  have 4: "minus_origin (Fin (401 / 2)) (- (1 / 2 ^ 48)) = Inr (Fin (401 / 2))"
    by (rule minus_origin_eval [where f = "- (1 / 2 ^ 48)"]; ((simp; fail) | code_simp))
  have 5: "py_round (203 / 2) = 102" "py_round (401 / 2) = 200"
    using py_round_half [of 101] py_round_half [of 200] by simp_all
  from screen_with_button_extract [of tiny_button_box "Fin (203 / 2)" "Fin (401 / 2)"
      tiny_screen_box "203 / 2" "401 / 2"] 1 2 3 4
  show ?thesis by (simp add: tiny_button_box_def tiny_screen_box_def 5)
qed

lemma far_extract:
  "extract_document (screen_with_button far_screen_box far_button_box)
     = Some (Inr [button_rec 0 2 0])"
proof -
  have 1: "plus_half (2 ^ 54) 3 = Inr (Fin (2 ^ 54))"
    by (rule plus_half_eval [where x = "2 ^ 54" and h = "3 / 2"]; ((simp; fail) | code_simp))
  have 2: "plus_half 0 3 = Inr (Fin (3 / 2))"
    by (rule plus_half_eval [where x = 0 and h = "3 / 2"]; ((simp; fail) | code_simp))
  have 3: "minus_origin (Fin (2 ^ 54)) (2 ^ 54) = Inr (Fin 0)"
    by (rule minus_origin_eval [where f = "2 ^ 54"]; ((simp; fail) | code_simp))
  have 4: "minus_origin (Fin (3 / 2)) 0 = Inr (Fin (3 / 2))"
    by (rule minus_origin_eval [where f = 0]; ((simp; fail) | code_simp))
  have 5: "py_round 0 = 0" using py_round_of_int [of 0] by simp
  from screen_with_button_extract [of far_button_box "Fin (2 ^ 54)" "Fin (3 / 2)"
      far_screen_box 0 "3 / 2"] 1 2 3 4
  show ?thesis by (simp add: far_button_box_def far_screen_box_def 5 py_round_examples)
qed

lemma half_extract:
  "extract_document (screen_with_button origin_screen_box half_button_box)
     = Some (Inr [button_rec 0 2 0])"
proof -
  have 1: "plus_half 0 1 = Inr (Fin (1 / 2))"
    by (rule plus_half_eval [where x = 0 and h = "1 / 2"]; ((simp; fail) | code_simp))
  have 2: "plus_half 0 3 = Inr (Fin (3 / 2))"
    by (rule plus_half_eval [where x = 0 and h = "3 / 2"]; ((simp; fail) | code_simp))
  have 3: "minus_origin (Fin (1 / 2)) 0 = Inr (Fin (1 / 2))"
    by (rule minus_origin_eval [where f = 0]; ((simp; fail) | code_simp))
  have 4: "minus_origin (Fin (3 / 2)) 0 = Inr (Fin (3 / 2))"
    by (rule minus_origin_eval [where f = 0]; ((simp; fail) | code_simp))
  from screen_with_button_extract [of half_button_box "Fin (1 / 2)" "Fin (3 / 2)"
      origin_screen_box "1 / 2" "3 / 2"] 1 2 3 4
  show ?thesis by (simp add: half_button_box_def origin_screen_box_def py_round_examples)
qed

text \<open>
  Claim C6 (as amended). For every qualifying node of a tree on which extraction returns
  a list (as it does for a tree with pairwise distinct ids and box numbers of at most
  \<open>2 ^ 1000\<close> in absolute value), the records of the node are in the output, and their tap
  position is the rounding of coordinates computed in double-precision arithmetic: the
  midpoint \<open>fl (fl x + fl (w / 2))\<close>, minus the origin of the resolved screen,
  \<open>fl (mid - fl sx)\<close>, when the resolver found one (a found screen always has a box), and
  the midpoint itself otherwise. The emitted integer is within \<open>1/2\<close> of that double. A
  node with box \<open>{x:110, y:210, w:20, h:20}\<close> in a screen with box
  \<open>{x:100, y:200, w:500, h:800}\<close> gets the tap position \<open>{x:20, y:20}\<close>.
\<close>

theorem tap_position_relative:
  assumes "n \<in> set (nodes_of tree)" and "absoluteBoundingBox n = Some b" and "has_link n"
    and "extract_clickables tree pm nl acc = Some (Inr cs)
       \<or> (distinct (ids_of tree)
            \<and> build_node_maps tree (Map.empty, Map.empty, Map.empty) None = (nm, pm, nl)
            \<and> list_all bounded_node (nodes_of tree))"
  shows "\<exists>out fr mid tp new.
           extract_clickables tree pm nl acc = Some (Inr out)
         \<and> find_frame_ancestor n pm nl = Some fr \<and> midpoint b = Inr mid
         \<and> tap_point mid fr = Inr tp \<and> node_clickables n b fr tp = Inr new
         \<and> set new \<subseteq> set out
         \<and> (\<forall>c\<in>set new. \<exists>mx my tx ty.
               mid = (Fin mx, Fin my) \<and> tp = (Fin tx, Fin ty)
             \<and> mx = fl (fl (box_x b) + fl (box_width b / 2))
             \<and> my = fl (fl (box_y b) + fl (box_height b / 2))
             \<and> (case fr of
                   None \<Rightarrow> tx = mx \<and> ty = my
                 | Some f \<Rightarrow>
                     (\<exists>s. absoluteBoundingBox f = Some s
                        \<and> tx = fl (mx - fl (box_x s)) \<and> ty = fl (my - fl (box_y s))))
             \<and> tap_position c = \<lparr> pos_x = py_round tx, pos_y = py_round ty \<rparr>
             \<and> \<bar>of_int (pos_x (tap_position c)) - tx\<bar> \<le> 1 / 2
             \<and> \<bar>of_int (pos_y (tap_position c)) - ty\<bar> \<le> 1 / 2
             \<and> (b = \<lparr> box_x = 110, box_y = 210, box_width = 20, box_height = 20 \<rparr>
                  \<and> (\<exists>f. fr = Some f \<and> absoluteBoundingBox f
                         = Some \<lparr> box_x = 100, box_y = 200, box_width = 500, box_height = 800 \<rparr>)
                \<longrightarrow> tap_position c = \<lparr> pos_x = 20, pos_y = 20 \<rparr>))"
proof -
  from extraction_of [OF assms(4)] obtain out where
    out: "extract_clickables tree pm nl acc = Some (Inr out)" by blast
  from extracted_node [OF out assms(1-3)] obtain fr mid tp new where
    fr: "find_frame_ancestor n pm nl = Some fr" and mid: "midpoint b = Inr mid"
    and tp: "tap_point mid fr = Inr tp" and new: "node_clickables n b fr tp = Inr new"
    and sub: "set new \<subseteq> set out" by blast
  have "\<exists>mx my tx ty.
               mid = (Fin mx, Fin my) \<and> tp = (Fin tx, Fin ty)
             \<and> mx = fl (fl (box_x b) + fl (box_width b / 2))
             \<and> my = fl (fl (box_y b) + fl (box_height b / 2))
             \<and> (case fr of
                   None \<Rightarrow> tx = mx \<and> ty = my
                 | Some f \<Rightarrow>
                     (\<exists>s. absoluteBoundingBox f = Some s
                        \<and> tx = fl (mx - fl (box_x s)) \<and> ty = fl (my - fl (box_y s))))
             \<and> tap_position c = \<lparr> pos_x = py_round tx, pos_y = py_round ty \<rparr>
             \<and> \<bar>of_int (pos_x (tap_position c)) - tx\<bar> \<le> 1 / 2
             \<and> \<bar>of_int (pos_y (tap_position c)) - ty\<bar> \<le> 1 / 2
             \<and> (b = \<lparr> box_x = 110, box_y = 210, box_width = 20, box_height = 20 \<rparr>
                  \<and> (\<exists>f. fr = Some f \<and> absoluteBoundingBox f
                         = Some \<lparr> box_x = 100, box_y = 200, box_width = 500, box_height = 800 \<rparr>)
                \<longrightarrow> tap_position c = \<lparr> pos_x = 20, pos_y = 20 \<rparr>)"
    if c: "c \<in> set new" for c
  proof -
    from tap_record [OF fr mid tp new c] obtain mx my tx ty where
      r: "mid = (Fin mx, Fin my)" "tp = (Fin tx, Fin ty)"
        "mx = fl (fl (box_x b) + fl (box_width b / 2))"
        "my = fl (fl (box_y b) + fl (box_height b / 2))"
        "case fr of
                   None \<Rightarrow> tx = mx \<and> ty = my
                 | Some f \<Rightarrow>
                     (\<exists>s. absoluteBoundingBox f = Some s
                        \<and> tx = fl (mx - fl (box_x s)) \<and> ty = fl (my - fl (box_y s)))"
        "tap_position c = \<lparr> pos_x = py_round tx, pos_y = py_round ty \<rparr>"
      by blast
    have near: "\<bar>of_int (pos_x (tap_position c)) - tx\<bar> \<le> 1 / 2"
      "\<bar>of_int (pos_y (tap_position c)) - ty\<bar> \<le> 1 / 2"
      using py_round_near [of tx] py_round_near [of ty] by (simp_all only: r(6) tap.simps)
    have ex: "tap_position c = \<lparr> pos_x = 20, pos_y = 20 \<rparr>"
      if "b = \<lparr> box_x = 110, box_y = 210, box_width = 20, box_height = 20 \<rparr>"
        "fr = Some f" "absoluteBoundingBox f
             = Some \<lparr> box_x = 100, box_y = 200, box_width = 500, box_height = 800 \<rparr>" for f
    proof -
      from mid r(1) that(1) ex_button_midpoint(1) have "mx = 120" "my = 220" by simp_all
      moreover from tp r(1,2) that(2,3) have
        "minus_origin (Fin mx) 100 = Inr (Fin tx)" "minus_origin (Fin my) 200 = Inr (Fin ty)"
        by (auto simp: tap_point_def split: sum.splits)
      ultimately have "tx = 20" "ty = 20" using ex_button_mid(3,4) by simp_all
      with r(6) show ?thesis using py_round_of_int [of 20] by simp
    qed
    from r near ex show ?thesis by blast
  qed
  with out fr mid tp new sub show ?thesis by blast
qed

theorem tap_position_relative_witness:
  "ex_button \<in> set (nodes_of ex_doc)
   \<and> absoluteBoundingBox ex_button
       = Some \<lparr> box_x = 110, box_y = 210, box_width = 20, box_height = 20 \<rparr>
   \<and> has_link ex_button
   \<and> distinct (ids_of ex_doc)
   \<and> build_node_maps ex_doc (Map.empty, Map.empty, Map.empty) None
       = (fst ex_maps, fst (snd ex_maps), snd (snd ex_maps))
   \<and> list_all bounded_node (nodes_of ex_doc)
   \<and> extract_clickables ex_doc (fst (snd ex_maps)) (snd (snd ex_maps)) []
       = Some (Inr [ex_rec_button, ex_rec_link])
   \<and> find_frame_ancestor ex_button (fst (snd ex_maps)) (snd (snd ex_maps)) = Some (Some ex_screen)
   \<and> absoluteBoundingBox ex_screen
       = Some \<lparr> box_x = 100, box_y = 200, box_width = 500, box_height = 800 \<rparr>
   \<and> midpoint \<lparr> box_x = 110, box_y = 210, box_width = 20, box_height = 20 \<rparr>
       = Inr (Fin 120, Fin 220)
   \<and> tap_point (Fin 120, Fin 220) (Some ex_screen) = Inr (Fin 20, Fin 20)
   \<and> node_clickables ex_button \<lparr> box_x = 110, box_y = 210, box_width = 20, box_height = 20 \<rparr>
       (Some ex_screen) (Fin 20, Fin 20) = Inr [ex_rec_button]
   \<and> tap_position ex_rec_button = \<lparr> pos_x = 20, pos_y = 20 \<rparr>"
  using tap_position_relative [of ex_button ex_doc
      "\<lparr> box_x = 110, box_y = 210, box_width = 20, box_height = 20 \<rparr>"
      "fst (snd ex_maps)" "snd (snd ex_maps)" "[]" "[]" "fst ex_maps"]
    ex_extract ex_button_frame ex_button_clickables ex_screen_box ex_button_facts
    ex_button_midpoint ex_built bounded_ex_doc ex_members
  by (simp add: ex_rec_button_def)

text \<open>
  The emitted integer need not be a nearest integer to the exact midpoint minus the exact
  origin: for a rectangle \<open>{x:100, y:200, w:3, h:1}\<close> in a screen whose origin is
  \<open>(2 ^ - 48, - 2 ^ - 48)\<close> the differences are rounded to the doubles \<open>101.5\<close> and \<open>200.5\<close>,
  and \<open>(102, 200)\<close> is emitted where the exact values round to \<open>(101, 201)\<close>.
\<close>

theorem tap_position_exact_counterexample:
  "extract_document (screen_with_button tiny_screen_box tiny_button_box)
     = Some (Inr [button_rec 102 200 200])
   \<and> tap_position (button_rec 102 200 200) = \<lparr> pos_x = 102, pos_y = 200 \<rparr>
   \<and> box_x tiny_button_box + box_width tiny_button_box / 2 - box_x tiny_screen_box
       = 203 / 2 - 1 / 2 ^ 48
   \<and> box_y tiny_button_box + box_height tiny_button_box / 2 - box_y tiny_screen_box
       = 401 / 2 + 1 / 2 ^ 48
   \<and> py_round (203 / 2 - 1 / 2 ^ 48) = 101
   \<and> py_round (401 / 2 + 1 / 2 ^ 48) = 201
   \<and> 1 / 2 < \<bar>102 - (203 / 2 - 1 / 2 ^ 48 :: rat)\<bar>
   \<and> 1 / 2 < \<bar>200 - (401 / 2 + 1 / 2 ^ 48 :: rat)\<bar>"
proof -
  have 1: "py_round (203 / 2 - 1 / 2 ^ 48) = 101" "py_round (401 / 2 + 1 / 2 ^ 48) = 201"
    by code_simp+
  have 2: "1 / 2 < \<bar>102 - (203 / 2 - 1 / 2 ^ 48 :: rat)\<bar>"
    "1 / 2 < \<bar>200 - (401 / 2 + 1 / 2 ^ 48 :: rat)\<bar>"
    by simp_all
  have 3: "box_x tiny_button_box + box_width tiny_button_box / 2 - box_x tiny_screen_box
       = 203 / 2 - 1 / 2 ^ 48"
    "box_y tiny_button_box + box_height tiny_button_box / 2 - box_y tiny_screen_box
       = 401 / 2 + 1 / 2 ^ 48"
    by (simp_all add: tiny_button_box_def tiny_screen_box_def)
  have 4: "tap_position (button_rec 102 200 200) = \<lparr> pos_x = 102, pos_y = 200 \<rparr>"
    by (simp add: button_rec_def)
  from tiny_extract 1 2 3 4 show ?thesis by (simp only: simp_thms)
qed

text \<open>
  Claim C9 (as amended). Rounding of a tap coordinate resolves ties to the even
  neighbour, where the coordinate is the double the program has computed: for a record
  of a qualifying node (of a tree on which extraction returns a list) whose computed
  coordinate before rounding is \<open>k + 1/2\<close>, the emitted coordinate is \<open>k\<close> when \<open>k\<close> is even
  and \<open>k + 1\<close> otherwise. So 0.5 gives 0 and 1.5 gives 2, where rounding half away from
  zero gives 1 and 2.
\<close>

theorem tap_rounding_half_even:
  assumes "n \<in> set (nodes_of tree)" and "absoluteBoundingBox n = Some b" and "has_link n"
    and "extract_clickables tree pm nl acc = Some (Inr cs)
       \<or> (distinct (ids_of tree)
            \<and> build_node_maps tree (Map.empty, Map.empty, Map.empty) None = (nm, pm, nl)
            \<and> list_all bounded_node (nodes_of tree))"
  shows "\<exists>out fr mid tp new.
           extract_clickables tree pm nl acc = Some (Inr out)
         \<and> find_frame_ancestor n pm nl = Some fr \<and> midpoint b = Inr mid
         \<and> tap_point mid fr = Inr tp \<and> node_clickables n b fr tp = Inr new
         \<and> set new \<subseteq> set out
         \<and> (\<forall>c\<in>set new. \<exists>tx ty.
               tp = (Fin tx, Fin ty)
             \<and> (\<forall>k. tx = of_int k + 1 / 2 \<longrightarrow>
                    pos_x (tap_position c) = (if even k then k else k + 1)
                  \<and> even (pos_x (tap_position c)))
             \<and> (\<forall>j. ty = of_int j + 1 / 2 \<longrightarrow>
                    pos_y (tap_position c) = (if even j then j else j + 1)
                  \<and> even (pos_y (tap_position c))))
         \<and> py_round (1 / 2) = 0 \<and> py_round (3 / 2) = 2
         \<and> c_round (1 / 2) = 1 \<and> c_round (3 / 2) = 2"
proof -
  from extraction_of [OF assms(4)] obtain out where
    out: "extract_clickables tree pm nl acc = Some (Inr out)" by blast
  from extracted_node [OF out assms(1-3)] obtain fr mid tp new where
    fr: "find_frame_ancestor n pm nl = Some fr" and mid: "midpoint b = Inr mid"
    and tp: "tap_point mid fr = Inr tp" and new: "node_clickables n b fr tp = Inr new"
    and sub: "set new \<subseteq> set out" by blast
  have "\<exists>tx ty.
               tp = (Fin tx, Fin ty)
             \<and> (\<forall>k. tx = of_int k + 1 / 2 \<longrightarrow>
                    pos_x (tap_position c) = (if even k then k else k + 1)
                  \<and> even (pos_x (tap_position c)))
             \<and> (\<forall>j. ty = of_int j + 1 / 2 \<longrightarrow>
                    pos_y (tap_position c) = (if even j then j else j + 1)
                  \<and> even (pos_y (tap_position c)))"
    if c: "c \<in> set new" for c
  proof -
    from node_clickables_tap [OF new c] obtain tx ty where
      t: "tp = (Fin tx, Fin ty)"
        "tap_position c = \<lparr> pos_x = py_round tx, pos_y = py_round ty \<rparr>"
      by blast
    have "pos_x (tap_position c) = (if even k then k else k + 1) \<and> even (pos_x (tap_position c))"
      if "tx = of_int k + 1 / 2" for k
      using that by (simp add: t(2) py_round_half)
    moreover have
      "pos_y (tap_position c) = (if even j then j else j + 1) \<and> even (pos_y (tap_position c))"
      if "ty = of_int j + 1 / 2" for j
      using that by (simp add: t(2) py_round_half)
    ultimately show ?thesis using t(1) by blast
  qed
  with out fr mid tp new sub show ?thesis
    using py_round_examples(1,2) c_round_examples(1,2) by blast
qed

theorem tap_rounding_half_even_witness:
  "ex_link \<in> set (nodes_of ex_doc)
   \<and> absoluteBoundingBox ex_link
       = Some \<lparr> box_x = 101, box_y = 300, box_width = 20, box_height = 21 \<rparr>
   \<and> has_link ex_link
   \<and> distinct (ids_of ex_doc)
   \<and> build_node_maps ex_doc (Map.empty, Map.empty, Map.empty) None
       = (fst ex_maps, fst (snd ex_maps), snd (snd ex_maps))
   \<and> list_all bounded_node (nodes_of ex_doc)
   \<and> extract_clickables ex_doc (fst (snd ex_maps)) (snd (snd ex_maps)) []
       = Some (Inr [ex_rec_button, ex_rec_link])
   \<and> find_frame_ancestor ex_link (fst (snd ex_maps)) (snd (snd ex_maps)) = Some (Some ex_screen)
   \<and> midpoint \<lparr> box_x = 101, box_y = 300, box_width = 20, box_height = 21 \<rparr>
       = Inr (Fin 111, Fin (621 / 2))
   \<and> tap_point (Fin 111, Fin (621 / 2)) (Some ex_screen) = Inr (Fin 11, Fin (of_int 110 + 1 / 2))
   \<and> node_clickables ex_link \<lparr> box_x = 101, box_y = 300, box_width = 20, box_height = 21 \<rparr>
       (Some ex_screen) (Fin 11, Fin (221 / 2)) = Inr [ex_rec_link]
   \<and> pos_y (tap_position ex_rec_link) = 110
   \<and> c_round (221 / 2) = 111
   \<and> extract_document (screen_with_button origin_screen_box half_button_box)
       = Some (Inr [button_rec 0 2 0])
   \<and> tap_position (button_rec 0 2 0) = \<lparr> pos_x = 0, pos_y = 2 \<rparr>"
  using tap_rounding_half_even [of ex_link ex_doc
      "\<lparr> box_x = 101, box_y = 300, box_width = 20, box_height = 21 \<rparr>"
      "fst (snd ex_maps)" "snd (snd ex_maps)" "[]" "[]" "fst ex_maps"]
    ex_extract ex_link_frame ex_link_clickables ex_link_facts
    ex_link_midpoint ex_built bounded_ex_doc ex_members half_extract c_round_half [of 110]
  by (simp add: ex_rec_link_def button_rec_def)

text \<open>
  The computed double can differ from the exact screen-relative midpoint, so an exact tie
  need not be emitted as its even neighbour: for a rectangle \<open>{x: 2 ^ 54, w: 3}\<close> in a
  screen at \<open>x = 2 ^ 54\<close> the exact value is the tie \<open>1.5\<close>, the computed double is \<open>0\<close>, and
  \<open>0\<close> is emitted.
\<close>

theorem tap_rounding_exact_tie_counterexample:
  "extract_document (screen_with_button far_screen_box far_button_box)
     = Some (Inr [button_rec 0 2 0])
   \<and> tap_position (button_rec 0 2 0) = \<lparr> pos_x = 0, pos_y = 2 \<rparr>
   \<and> box_x far_button_box + box_width far_button_box / 2 - box_x far_screen_box
       = of_int 1 + 1 / 2
   \<and> py_round (of_int 1 + 1 / 2) = 2"
  using far_extract py_round_half [of 1]
  by (simp add: far_button_box_def far_screen_box_def button_rec_def)

section \<open>Properties of the screenshot cache\<close>

lemma fetch_item_cached:
  "d (navigates_to item) = Some p \<Longrightarrow>
     fetch_item env nm item (d, w) = (item\<lparr> screenshot := Py_Str p \<rparr>, d, w)"
  by (simp add: fetch_item_def)

lemma fetch_item_success:
  assumes "d (navigates_to item) = None"
    and "render_reply env (length (trace w)) (navigates_to item) = Inr (Some url)" "url \<noteq> []"
    and "download_reply env (Suc (length (trace w))) url (file_path_of nm (navigates_to item))
           = Inr img"
  shows "fetch_item env nm item (d, w) =
     (item\<lparr> screenshot := Py_Str (file_path_of nm (navigates_to item)) \<rparr>,
      d(navigates_to item \<mapsto> file_path_of nm (navigates_to item)),
      \<lparr> trace = trace w @ [(navigates_to item, Render (navigates_to item)),
                            (navigates_to item,
                             Download url (file_path_of nm (navigates_to item)))],
        files = (files w)(file_path_of nm (navigates_to item) \<mapsto> img) \<rparr>)"
  using assms
  by (simp add: fetch_item_def get_screenshot_url_def download_image_def Let_def)

lemma fetch_item_step:
  assumes "fetch_item env nm item (d, w) = (item', d', w')"
  shows "navigates_to item' = navigates_to item
       \<and> (\<exists>new. trace w' = trace w @ new \<and> (\<forall>e\<in>set new. fst e = navigates_to item)
             \<and> (d (navigates_to item) \<noteq> None \<longrightarrow> new = []))
       \<and> (\<forall>k. k \<noteq> navigates_to item \<longrightarrow> d' k = d k)
       \<and> (\<forall>p. d (navigates_to item) = Some p \<longrightarrow> d' = d \<and> screenshot item' = Py_Str p)"
proof (cases "d (navigates_to item)")
  case (Some p)
  with assms show ?thesis by (auto simp: fetch_item_cached)
next
  case None
  with assms show ?thesis
    by (auto simp: fetch_item_def get_screenshot_url_def download_image_def Let_def
        split: sum.splits option.splits if_splits bool.splits)
qed

lemma counts_unchanged:
  assumes "trace w' = trace w @ new" "\<forall>e\<in>set new. fst e \<noteq> t"
  shows "render_count t w' = render_count t w" "download_count t w' = download_count t w"
proof -
  have "filter (\<lambda>e. e = (t, Render t)) new = []"
    "filter (\<lambda>e. fst e = t \<and> is_download (snd e)) new = []"
    using assms(2) by (auto simp: filter_empty_conv)
  then show "render_count t w' = render_count t w" "download_count t w' = download_count t w"
    by (simp_all add: render_count_def download_count_def assms(1))
qed

lemma fetch_all_append:
  "fetch_all env nm (xs @ ys) st =
     (case fetch_all env nm xs st of
        (xs', st') \<Rightarrow> (case fetch_all env nm ys st' of (ys', st'') \<Rightarrow> (xs' @ ys', st'')))"
  by (induction xs arbitrary: st) (simp_all add: split_def Let_def)

lemma fetch_all_other_ids:
  assumes "fetch_all env nm items (d, w) = (out, d', w')" "\<forall>c\<in>set items. navigates_to c \<noteq> t"
  shows "d' t = d t \<and> render_count t w' = render_count t w
       \<and> download_count t w' = download_count t w \<and> (\<forall>c\<in>set out. navigates_to c \<noteq> t)"
  using assms
proof (induction items arbitrary: d w out)
  case Nil
  then show ?case by simp
next
  case (Cons item rest)
  obtain item1 d1 w1 where step: "fetch_item env nm item (d, w) = (item1, d1, w1)"
    by (cases "fetch_item env nm item (d, w)") auto
  obtain rest' dd ww where rest0: "fetch_all env nm rest (d1, w1) = (rest', dd, ww)"
    by (cases "fetch_all env nm rest (d1, w1)") auto
  with Cons.prems(1) step have out: "out = item1 # rest'" and "dd = d'" "ww = w'"
    by simp_all
  with rest0 have rest: "fetch_all env nm rest (d1, w1) = (rest', d', w')" by simp
  from Cons.prems(2) have ne: "navigates_to item \<noteq> t" and restne: "\<forall>c\<in>set rest. navigates_to c \<noteq> t"
    by simp_all
  from fetch_item_step [OF step] ne obtain new where
    s: "navigates_to item1 = navigates_to item" "trace w1 = trace w @ new"
       "\<forall>e\<in>set new. fst e \<noteq> t" "d1 t = d t"
    by auto
  from Cons.IH [OF rest restne] counts_unchanged [OF s(2,3)] s(1,4) ne out
  show ?case by simp
qed

lemma fetch_all_cached:
  assumes "fetch_all env nm items (d, w) = (out, d', w')" "d t = Some p"
  shows "d' t = Some p \<and> render_count t w' = render_count t w
       \<and> download_count t w' = download_count t w
       \<and> (\<forall>c\<in>set out. navigates_to c = t \<longrightarrow> screenshot c = Py_Str p)"
  using assms
proof (induction items arbitrary: d w out)
  case Nil
  then show ?case by simp
next
  case (Cons item rest)
  obtain item1 d1 w1 where step: "fetch_item env nm item (d, w) = (item1, d1, w1)"
    by (cases "fetch_item env nm item (d, w)") auto
  obtain rest' dd ww where rest0: "fetch_all env nm rest (d1, w1) = (rest', dd, ww)"
    by (cases "fetch_all env nm rest (d1, w1)") auto
  with Cons.prems(1) step have out: "out = item1 # rest'" and "dd = d'" "ww = w'"
    by simp_all
  with rest0 have rest: "fetch_all env nm rest (d1, w1) = (rest', d', w')" by simp
  have s: "navigates_to item1 = navigates_to item" "d1 t = Some p"
    "render_count t w1 = render_count t w" "download_count t w1 = download_count t w"
    "navigates_to item = t \<longrightarrow> screenshot item1 = Py_Str p"
  proof -
    from fetch_item_step [OF step] obtain new where
      n: "navigates_to item1 = navigates_to item" "trace w1 = trace w @ new"
        "\<forall>e\<in>set new. fst e = navigates_to item" "d (navigates_to item) \<noteq> None \<longrightarrow> new = []"
        "\<forall>k. k \<noteq> navigates_to item \<longrightarrow> d1 k = d k"
        "\<forall>q. d (navigates_to item) = Some q \<longrightarrow> d1 = d \<and> screenshot item1 = Py_Str q"
      by auto
    show "navigates_to item1 = navigates_to item" by fact
    show "d1 t = Some p" using n(5,6) Cons.prems(2) by (cases "navigates_to item = t") auto
    have "\<forall>e\<in>set new. fst e \<noteq> t" using n(3,4) Cons.prems(2) by (cases "navigates_to item = t") auto
    from counts_unchanged [OF n(2) this]
    show "render_count t w1 = render_count t w" "download_count t w1 = download_count t w" .
    show "navigates_to item = t \<longrightarrow> screenshot item1 = Py_Str p" using n(6) Cons.prems(2) by auto
  qed
  from Cons.IH [OF rest s(2)] s out show ?case by simp
qed

lemma ex_details_path: "file_path_of (fst ex_maps) ''2:1'' = ''screenshots/Details.png''"
  by (simp add: file_path_of_def screen_name_of_def get_default_def ex_maps_def ex_nodes_defs
      strip_def is_space_def replace_space_def)

lemma ex_rec_ids: "navigates_to ex_rec_button = ''2:1''" "navigates_to ex_rec_link = ''2:1''"
  by (simp_all add: ex_rec_button_def ex_rec_link_def)

lemma ex_fetch_ok:
  "fetch_all ex_env_ok (fst ex_maps) [ex_rec_button, ex_rec_link] (Map.empty, world0) =
     ([ex_rec_button\<lparr> screenshot := Py_Str ''screenshots/Details.png'' \<rparr>,
       ex_rec_link\<lparr> screenshot := Py_Str ''screenshots/Details.png'' \<rparr>],
      [''2:1'' \<mapsto> ''screenshots/Details.png''],
      \<lparr> trace = [(''2:1'', Render ''2:1''),
                  (''2:1'', Download ''https://img/2:1'' ''screenshots/Details.png'')],
        files = [''screenshots/Details.png'' \<mapsto> ''PNG:https://img/2:1''] \<rparr>)"
  by (simp add: fetch_item_def get_screenshot_url_def download_image_def Let_def ex_rec_ids
      ex_details_path ex_env_ok_def world0_def)

lemma ex_fetch_flaky:
  "fetch_all ex_env_flaky (fst ex_maps) [ex_rec_button, ex_rec_link] (Map.empty, world0) =
     ([ex_rec_button,
       ex_rec_link\<lparr> screenshot := Py_Str ''screenshots/Details.png'' \<rparr>],
      [''2:1'' \<mapsto> ''screenshots/Details.png''],
      \<lparr> trace = [(''2:1'', Render ''2:1''), (''2:1'', Render ''2:1''),
                  (''2:1'', Download ''https://img/2:1'' ''screenshots/Details.png'')],
        files = [''screenshots/Details.png'' \<mapsto> ''PNG:https://img/2:1''] \<rparr>)"
  by (simp add: fetch_item_def get_screenshot_url_def download_image_def Let_def ex_rec_ids
      ex_details_path ex_env_flaky_def world0_def)

lemma ex_fetch_no_url:
  "fetch_all ex_env_no_url (fst ex_maps) [ex_rec_button, ex_rec_link] (Map.empty, world0) =
     ([ex_rec_button, ex_rec_link], Map.empty,
      \<lparr> trace = [(''2:1'', Render ''2:1''), (''2:1'', Render ''2:1'')], files = Map.empty \<rparr>)"
  by (simp add: fetch_item_def get_screenshot_url_def download_image_def Let_def ex_rec_ids
      ex_details_path ex_env_no_url_def world0_def)

text \<open>
  Claim C3 (as amended). The cache holds an id only after its screenshot was saved.
  When the fetch made for the first record with a given \<open>navigates_to\<close> id succeeds (the
  render request returns a URL and the download is saved), the run makes exactly one
  render request and exactly one download for that id, and every record with that id
  ends with the same screenshot path. A fetch that fails is tried again at the next
  record with the same id.
\<close>

theorem screenshot_cache_once:
  assumes pre: "\<forall>c\<in>set pre. navigates_to c \<noteq> t" and r: "navigates_to r = t"
    and before: "fetch_all env nm pre (Map.empty, world0) = (pre', d1, w1)"
    and rendered: "render_reply env (length (trace w1)) t = Inr (Some url)" "url \<noteq> []"
    and saved: "download_reply env (Suc (length (trace w1))) url (file_path_of nm t) = Inr img"
    and run: "fetch_all env nm (pre @ r # post) (Map.empty, world0) = (out, d, w)"
  shows "render_count t w = 1 \<and> download_count t w = 1
       \<and> (\<forall>c\<in>set out. navigates_to c = t \<longrightarrow> screenshot c = Py_Str (file_path_of nm t))"
proof -
  let ?p = "file_path_of nm t"
  from fetch_all_other_ids [OF before pre]
  have b: "d1 t = None" "render_count t w1 = 0" "download_count t w1 = 0"
    "\<forall>c\<in>set pre'. navigates_to c \<noteq> t"
    by (simp_all add: render_count_def download_count_def world0_def)
  define w2 where "w2 = \<lparr> trace = trace w1 @ [(t, Render t), (t, Download url ?p)],
                          files = (files w1)(?p \<mapsto> img) \<rparr>"
  have step: "fetch_item env nm r (d1, w1) = (r\<lparr> screenshot := Py_Str ?p \<rparr>, d1(t \<mapsto> ?p), w2)"
    using fetch_item_success [of d1 r env w1 url nm img] b(1) r rendered saved
    by (simp add: w2_def)
  have c2: "render_count t w2 = 1" "download_count t w2 = 1"
    using b(2,3) by (simp_all add: w2_def render_count_def download_count_def)
  obtain post' dd ww where post0: "fetch_all env nm post (d1(t \<mapsto> ?p), w2) = (post', dd, ww)"
    by (cases "fetch_all env nm post (d1(t \<mapsto> ?p), w2)") auto
  with run before step have out: "out = pre' @ r\<lparr> screenshot := Py_Str ?p \<rparr> # post'"
    and "dd = d" "ww = w"
    by (simp_all add: fetch_all_append)
  with post0 have post: "fetch_all env nm post (d1(t \<mapsto> ?p), w2) = (post', d, w)" by simp
  from fetch_all_cached [OF post, of t ?p] c2
  have "render_count t w = 1" "download_count t w = 1"
    "\<forall>c\<in>set post'. navigates_to c = t \<longrightarrow> screenshot c = Py_Str ?p"
    by simp_all
  with b(4) out show ?thesis by auto
qed

theorem screenshot_cache_once_witness:
  "render_count ''2:1''
     (snd (snd (fetch_all ex_env_ok (fst ex_maps) [ex_rec_button, ex_rec_link]
        (Map.empty, world0)))) = 1
   \<and> download_count ''2:1''
     (snd (snd (fetch_all ex_env_ok (fst ex_maps) [ex_rec_button, ex_rec_link]
        (Map.empty, world0)))) = 1
   \<and> map screenshot (fst (fetch_all ex_env_ok (fst ex_maps) [ex_rec_button, ex_rec_link]
        (Map.empty, world0)))
       = [Py_Str ''screenshots/Details.png'', Py_Str ''screenshots/Details.png'']"
proof -
  let ?R = "fetch_all ex_env_ok (fst ex_maps) [ex_rec_button, ex_rec_link] (Map.empty, world0)"
  have "render_count ''2:1'' (snd (snd ?R)) = 1 \<and> download_count ''2:1'' (snd (snd ?R)) = 1
      \<and> (\<forall>c\<in>set (fst ?R). navigates_to c = ''2:1'' \<longrightarrow>
            screenshot c = Py_Str (file_path_of (fst ex_maps) ''2:1''))"
  proof (rule screenshot_cache_once [where pre = "[]" and r = ex_rec_button
        and post = "[ex_rec_link]" and pre' = "[]" and ?d1.0 = Map.empty and ?w1.0 = world0
        and url = "''https://img/2:1''" and img = "''PNG:https://img/2:1''"
        and d = "fst (snd ?R)"])
    show "\<forall>c\<in>set []. navigates_to c \<noteq> ''2:1''" by simp
    show "navigates_to ex_rec_button = ''2:1''" by (rule ex_rec_ids)
    show "fetch_all ex_env_ok (fst ex_maps) [] (Map.empty, world0) = ([], Map.empty, world0)"
      by simp
    show "render_reply ex_env_ok (length (trace world0)) ''2:1'' = Inr (Some ''https://img/2:1'')"
      by (simp add: ex_env_ok_def)
    show "''https://img/2:1'' \<noteq> []" by simp
    show "download_reply ex_env_ok (Suc (length (trace world0))) ''https://img/2:1''
        (file_path_of (fst ex_maps) ''2:1'') = Inr ''PNG:https://img/2:1''"
      by (simp add: ex_env_ok_def)
    show "fetch_all ex_env_ok (fst ex_maps) ([] @ ex_rec_button # [ex_rec_link])
        (Map.empty, world0) = (fst ?R, fst (snd ?R), snd (snd ?R))"
      by simp
  qed
  then show ?thesis unfolding ex_fetch_ok by (simp add: ex_rec_ids ex_details_path)
qed

theorem screenshot_cache_retry_counterexample:
  "navigates_to ex_rec_button = navigates_to ex_rec_link
   \<and> render_count ''2:1''
       (snd (snd (fetch_all ex_env_flaky (fst ex_maps) [ex_rec_button, ex_rec_link]
          (Map.empty, world0)))) = 2
   \<and> map screenshot (fst (fetch_all ex_env_flaky (fst ex_maps) [ex_rec_button, ex_rec_link]
        (Map.empty, world0)))
       = [Py_None, Py_Str ''screenshots/Details.png'']"
  unfolding ex_fetch_flaky
  by (simp add: ex_rec_ids render_count_def) (simp add: ex_rec_button_def)

text \<open>
  Claim C10. The file path of a screenshot depends on the target's display name only
  (stripped, spaces replaced by underscores, "Target" when the id has no name). For two
  records with distinct ids and equal such names, fetched one after the other with
  success, both downloads go to the same file, which ends up holding the later image,
  and both records carry that one path.
\<close>

theorem same_name_same_file:
  assumes ids: "navigates_to a \<noteq> navigates_to b"
    and names: "replace_space (strip (get_default nm (navigates_to a) ''Target''))
              = replace_space (strip (get_default nm (navigates_to b) ''Target''))"
    and fresh: "d (navigates_to a) = None" "d (navigates_to b) = None"
    and a_ok: "render_reply env (length (trace w)) (navigates_to a) = Inr (Some ua)" "ua \<noteq> []"
      "download_reply env (length (trace w) + 1) ua (file_path_of nm (navigates_to a)) = Inr img_a"
    and b_ok: "render_reply env (length (trace w) + 2) (navigates_to b) = Inr (Some ub)" "ub \<noteq> []"
      "download_reply env (length (trace w) + 3) ub (file_path_of nm (navigates_to a)) = Inr img_b"
  shows "file_path_of nm (navigates_to a) = file_path_of nm (navigates_to b)
       \<and> fst (fetch_all env nm [a, b] (d, w))
           = [a\<lparr> screenshot := Py_Str (file_path_of nm (navigates_to a)) \<rparr>,
              b\<lparr> screenshot := Py_Str (file_path_of nm (navigates_to a)) \<rparr>]
       \<and> files (snd (snd (fetch_all env nm [a, b] (d, w)))) (file_path_of nm (navigates_to a))
           = Some img_b
       \<and> download_count (navigates_to a) (snd (snd (fetch_all env nm [a, b] (d, w))))
           = download_count (navigates_to a) w + 1
       \<and> download_count (navigates_to b) (snd (snd (fetch_all env nm [a, b] (d, w))))
           = download_count (navigates_to b) w + 1
       \<and> (nm t = None \<longrightarrow> file_path_of nm t = ''screenshots/Target.png'')"
proof -
  let ?p = "file_path_of nm (navigates_to a)"
  have same: "file_path_of nm (navigates_to b) = ?p"
    using names by (simp add: file_path_of_def screen_name_of_def)
  define w1 where "w1 = \<lparr> trace = trace w @ [(navigates_to a, Render (navigates_to a)),
                                               (navigates_to a, Download ua ?p)],
                          files = (files w)(?p \<mapsto> img_a) \<rparr>"
  have s1: "fetch_item env nm a (d, w)
      = (a\<lparr> screenshot := Py_Str ?p \<rparr>, d(navigates_to a \<mapsto> ?p), w1)"
    using fetch_item_success [of d a env w ua nm img_a] fresh(1) a_ok by (simp add: w1_def)
  have s2: "fetch_item env nm b (d(navigates_to a \<mapsto> ?p), w1)
      = (b\<lparr> screenshot := Py_Str ?p \<rparr>, d(navigates_to a \<mapsto> ?p, navigates_to b \<mapsto> ?p),
         \<lparr> trace = trace w1 @ [(navigates_to b, Render (navigates_to b)),
                                (navigates_to b, Download ub ?p)],
           files = (files w1)(?p \<mapsto> img_b) \<rparr>)"
    using fetch_item_success [of "d(navigates_to a \<mapsto> ?p)" b env w1 ub nm img_b]
      fresh(2) ids b_ok same
    by (simp add: w1_def numeral_3_eq_3 numeral_2_eq_2)
  have run: "fetch_all env nm [a, b] (d, w)
      = ([a\<lparr> screenshot := Py_Str ?p \<rparr>, b\<lparr> screenshot := Py_Str ?p \<rparr>],
         d(navigates_to a \<mapsto> ?p, navigates_to b \<mapsto> ?p),
         \<lparr> trace = trace w1 @ [(navigates_to b, Render (navigates_to b)),
                                (navigates_to b, Download ub ?p)],
           files = (files w1)(?p \<mapsto> img_b) \<rparr>)"
    by (simp add: s1 s2)
  have dflt: "file_path_of nm t = ''screenshots/Target.png''" if "nm t = None"
    using that
    by (simp add: file_path_of_def screen_name_of_def get_default_def strip_def is_space_def
        replace_space_def)
  show ?thesis
    unfolding run using same ids dflt
    by (simp add: download_count_def w1_def)
qed

theorem same_name_same_file_witness:
  "file_path_of ex_names ''10:3'' = ''screenshots/Home_Page.png''
   \<and> file_path_of ex_names ''10:4'' = ''screenshots/Home_Page.png''
   \<and> map screenshot (fst (fetch_all ex_env_ok ex_names
         [ex_click ''Home'' ''10:3'' 50, ex_click ''Home'' ''10:4'' 60] (Map.empty, world0)))
       = [Py_Str ''screenshots/Home_Page.png'', Py_Str ''screenshots/Home_Page.png'']
   \<and> files (snd (snd (fetch_all ex_env_ok ex_names
         [ex_click ''Home'' ''10:3'' 50, ex_click ''Home'' ''10:4'' 60] (Map.empty, world0))))
       ''screenshots/Home_Page.png'' = Some ''PNG:https://img/10:4''"
proof -
  have p: "file_path_of ex_names ''10:3'' = ''screenshots/Home_Page.png''"
    "file_path_of ex_names ''10:4'' = ''screenshots/Home_Page.png''"
    by (simp_all add: file_path_of_def screen_name_of_def get_default_def ex_names_def
        strip_def is_space_def replace_space_def)
  have n: "navigates_to (ex_click ''Home'' ''10:3'' 50) = ''10:3''"
    "navigates_to (ex_click ''Home'' ''10:4'' 60) = ''10:4''"
    by (simp_all add: ex_click_def)
  have "replace_space (strip (get_default ex_names ''10:3'' ''Target''))
      = replace_space (strip (get_default ex_names ''10:4'' ''Target''))"
    by (simp add: get_default_def ex_names_def strip_def is_space_def replace_space_def)
  with same_name_same_file [where a = "ex_click ''Home'' ''10:3'' 50"
      and b = "ex_click ''Home'' ''10:4'' 60" and nm = ex_names and d = Map.empty
      and w = world0 and env = ex_env_ok and ua = "''https://img/10:3''"
      and ub = "''https://img/10:4''" and img_a = "''PNG:https://img/10:3''"
      and img_b = "''PNG:https://img/10:4''"]
  show ?thesis
    by (simp add: n p) (simp add: ex_env_ok_def)
qed

section \<open>Properties of the summary\<close>

lemma summary_loop_Py_None:
  "\<exists>item\<in>set cs. screenshot item = Py_None \<Longrightarrow> summary_loop idx cs nm lines = Inl TypeError"
proof (induction cs arbitrary: idx lines)
  case Nil
  then show ?case by simp
next
  case (Cons item rest)
  show ?case
  proof (cases "screenshot item")
    case Py_None
    then show ?thesis by (simp add: get_screenshot_def basename_def)
  next
    case Key_Missing
    with Cons.prems have "\<exists>i\<in>set rest. screenshot i = Py_None" by auto
    with Key_Missing Cons.IH show ?thesis by (simp add: get_screenshot_def basename_def)
  next
    case (Py_Str p)
    with Cons.prems have "\<exists>i\<in>set rest. screenshot i = Py_None" by auto
    with Py_Str Cons.IH show ?thesis by (simp add: get_screenshot_def basename_def)
  qed
qed

lemma ex_sorted:
  "sort_clickables [ex_rec_button, ex_rec_link] (fst ex_maps) ''Splash''
     = [ex_rec_button, ex_rec_link]"
proof -
  have "fst ex_maps ''2:1'' = Some ''Details''" by (simp add: ex_maps_def ex_nodes_defs)
  then have "sort_key_of (fst ex_maps) ''Splash'' ex_rec_button = (2, 210)"
    "sort_key_of (fst ex_maps) ''Splash'' ex_rec_link = (2, 300)"
    by (simp_all add: sort_key_of_tiers get_default_def strip_def is_space_def
        ex_rec_button_def ex_rec_link_def)
  then show ?thesis by (simp add: sort_clickables_def)
qed

lemma str_int_examples: "str_int 1 = ''1''" "str_int 11 = ''11''" "str_int 110 = ''110''"
  by code_simp+

lemma ex_summary_fallback:
  "generate_summary [ex_rec_link\<lparr> screenshot := Key_Missing \<rparr>] (fst ex_maps)
     = Inr [''1. Click_COORD, 11, 110, CHECK, Details.png'']"
proof -
  have "fst ex_maps ''2:1'' = Some ''Details''" by (simp add: ex_maps_def ex_nodes_defs)
  then show ?thesis
    by (simp add: generate_summary_def get_screenshot_def basename_def summary_line_def
        get_default_def strip_def is_space_def replace_space_def ex_rec_link_def str_int_examples)
qed

text \<open>
  Claim C1 (what the code does instead). Every extracted record holds \<^verbatim>\<open>None\<close> under the
  key \<^verbatim>\<open>"screenshot"\<close>, so \<^verbatim>\<open>item.get("screenshot", default)\<close> returns \<^verbatim>\<open>None\<close>, not the
  default, for a record whose screenshot was never saved, and \<^verbatim>\<open>os.path.basename\<close>
  raises. In a run on \<open>ex_doc\<close> where no render URL is available, the ordered records
  are written, the summary is not, and the run ends with an uncaught \<open>TypeError\<close>. The
  fallback name is used only for a record that lacks the key.
\<close>

theorem summary_raises_without_screenshot:
  "main ex_env_no_url ex_doc ''Splash'' =
     Some \<lparr> clickable_elements_json = Some [ex_rec_button, ex_rec_link],
            click_coord_summary_txt = None,
            uncaught = Some TypeError,
            final_world = \<lparr> trace = [(''2:1'', Render ''2:1''), (''2:1'', Render ''2:1'')],
                            files = Map.empty \<rparr> \<rparr>
   \<and> screenshot ex_rec_link = Py_None
   \<and> generate_summary [ex_rec_link] (fst ex_maps) = Inl TypeError
   \<and> generate_summary [ex_rec_link\<lparr> screenshot := Key_Missing \<rparr>] (fst ex_maps)
       = Inr [''1. Click_COORD, 11, 110, CHECK, Details.png'']"
proof -
  have s: "screenshot ex_rec_link = Py_None" by (simp add: ex_rec_link_def)
  then have g: "generate_summary cs (fst ex_maps) = Inl TypeError" if "ex_rec_link \<in> set cs" for cs
    unfolding generate_summary_def using that by (intro summary_loop_Py_None) blast
  have "main ex_env_no_url ex_doc ''Splash'' =
     Some \<lparr> clickable_elements_json = Some [ex_rec_button, ex_rec_link],
            click_coord_summary_txt = None,
            uncaught = Some TypeError,
            final_world = \<lparr> trace = [(''2:1'', Render ''2:1''), (''2:1'', Render ''2:1'')],
                            files = Map.empty \<rparr> \<rparr>"
    unfolding main_def ex_maps_def [symmetric]
    by (simp only: Let_def split_def ex_extract option.case ex_sorted ex_fetch_no_url
        fst_conv snd_conv g [of "[ex_rec_button, ex_rec_link]", simplified] sum.case)
  with s g [of "[ex_rec_link]"] ex_summary_fallback show ?thesis by simp
qed

end
